theory Spec2Isabelle
  imports Complex_Main "HOL-Library.Word" "HOL-Library.Signed_Division"
begin

unbundle bit_operations_syntax

section \<open>Numbers and errors\<close>

text \<open>
  The solver computes with C++ \<open>float\<close>. A float is a value of \<open>cfloat\<close>: a real
  number, one of the two infinities, or NaN. The regret and strategy updates and the
  showdown and chance traversals are modelled on the reals: rounding, overflow and the
  special values are abstracted away there, so every equation about their sums, products
  and quotients is the exact-arithmetic reading of the code. \<open>terminalUtility\<close> and
  \<open>getAverageStrategy\<close> are modelled in single precision: a float expression is
  evaluated in float, every operation rounding its exact result (no wider intermediate
  format, no fused multiply-add). The EV and equity tables, where the code tests for NaN
  (\<open>x == x\<close>), hold values of \<open>cfloat\<close>.
\<close>

datatype cfloat = Num real | PInf | NInf | NaN

text \<open>The comparison \<open>a == b\<close> on floats: false as soon as one side is NaN.\<close>

fun float_eq :: "cfloat \<Rightarrow> cfloat \<Rightarrow> bool" where
  "float_eq NaN _ = False"
| "float_eq _ NaN = False"
| "float_eq a b = (a = b)"

subsection \<open>Single and double precision\<close>

text \<open>
  A binary format has \<open>p\<close> significand bits and a largest exponent \<open>emax\<close>: 24 and 127
  for \<open>float\<close>, 53 and 1023 for \<open>double\<close>. Its finite values are the numbers
  \<open>m * 2^(e - p + 1)\<close> with \<open>|m| < 2^p\<close> and \<open>1 - emax \<le> e \<le> emax\<close>. The two zeros
  are one value here; the operations below that could tell them apart (a division by
  zero) take the zero as positive.
\<close>

text \<open>\<open>2^e\<close> for an integer \<open>e\<close>.\<close>

definition pow2 :: "int \<Rightarrow> real" where
  "pow2 e = (if 0 \<le> e then 2 ^ nat e else 1 / 2 ^ nat (- e))"

text \<open>The integer nearest to \<open>x\<close>; the even one of the two when \<open>x\<close> lies halfway.\<close>

definition round_even :: "real \<Rightarrow> int" where
  "round_even x =
     (let n = \<lfloor>x\<rfloor>; d = x - of_int n
      in if d < 1 / 2 then n
         else if 1 / 2 < d then n + 1
         else if even n then n else n + 1)"

text \<open>
  The exponent of a magnitude \<open>x\<close>: the \<open>e\<close> with \<open>2^e \<le> x < 2^(e+1)\<close>, found by halving
  an \<open>x \<ge> 1\<close> and by doubling an \<open>x < 1\<close>. It is not taken below \<open>1 - emax\<close>, the
  exponent of the subnormal numbers, nor above \<open>emax + 1\<close>, where the result overflows
  anyway.
\<close>

fun expo_up :: "nat \<Rightarrow> real \<Rightarrow> int" where
  "expo_up 0 x = 0"
| "expo_up (Suc n) x = (if x < 2 then 0 else expo_up n (x / 2) + 1)"

fun expo_down :: "nat \<Rightarrow> real \<Rightarrow> int" where
  "expo_down 0 x = 0"
| "expo_down (Suc n) x = (if 1 \<le> x then 0 else expo_down n (2 * x) - 1)"

definition exponent_of :: "nat \<Rightarrow> real \<Rightarrow> int" where
  "exponent_of emax x = (if 1 \<le> x then expo_up (emax + 1) x else expo_down (emax - 1) x)"

text \<open>
  Rounding to nearest, ties to even, which every arithmetic operation applies to its
  exact result: \<open>x\<close> goes to the nearest multiple of the unit in the last place of its
  exponent, and a result of magnitude \<open>2^(emax+1)\<close> or more is an infinity.
\<close>

definition round_float :: "nat \<Rightarrow> nat \<Rightarrow> real \<Rightarrow> cfloat" where
  "round_float p emax x =
     (let e = exponent_of emax \<bar>x\<bar>;
          ulp = pow2 (e - int p + 1);
          y = of_int (round_even (x / ulp)) * ulp
      in if 2 ^ (emax + 1) \<le> \<bar>y\<bar> then (if 0 < x then PInf else NInf) else Num y)"

definition fl32 :: "real \<Rightarrow> cfloat" where
  "fl32 = round_float 24 127"

definition fl64 :: "real \<Rightarrow> cfloat" where
  "fl64 = round_float 53 1023"

text \<open>
  The operations \<open>a + b\<close>, \<open>a - b\<close>, \<open>a * b\<close> and \<open>a / b\<close> on two floats, each with the
  one rounding of its result and with the special values of IEEE 754; the division is
  given for any rounding, as the code divides in both precisions.
\<close>

fun fneg :: "cfloat \<Rightarrow> cfloat" where
  "fneg (Num a) = Num (- a)"
| "fneg PInf = NInf"
| "fneg NInf = PInf"
| "fneg NaN = NaN"

fun fadd :: "cfloat \<Rightarrow> cfloat \<Rightarrow> cfloat" where
  "fadd (Num a) (Num b) = fl32 (a + b)"
| "fadd NaN b = NaN"
| "fadd a NaN = NaN"
| "fadd PInf NInf = NaN"
| "fadd NInf PInf = NaN"
| "fadd PInf b = PInf"
| "fadd a PInf = PInf"
| "fadd NInf b = NInf"
| "fadd a NInf = NInf"

definition fsub :: "cfloat \<Rightarrow> cfloat \<Rightarrow> cfloat" where
  "fsub a b = fadd a (fneg b)"

fun fmul :: "cfloat \<Rightarrow> cfloat \<Rightarrow> cfloat" where
  "fmul (Num a) (Num b) = fl32 (a * b)"
| "fmul NaN b = NaN"
| "fmul a NaN = NaN"
| "fmul (Num a) b = (if a = 0 then NaN else if (0 < a) = (b = PInf) then PInf else NInf)"
| "fmul a (Num b) = (if b = 0 then NaN else if (0 < b) = (a = PInf) then PInf else NInf)"
| "fmul a b = (if a = b then PInf else NInf)"

fun float_div :: "(real \<Rightarrow> cfloat) \<Rightarrow> cfloat \<Rightarrow> cfloat \<Rightarrow> cfloat" where
  "float_div rnd (Num a) (Num b) =
     (if b \<noteq> 0 then rnd (a / b)
      else if a = 0 then NaN else if 0 < a then PInf else NInf)"
| "float_div rnd NaN b = NaN"
| "float_div rnd a NaN = NaN"
| "float_div rnd (Num a) b = Num 0"
| "float_div rnd a (Num b) = (if (0 \<le> b) = (a = PInf) then PInf else NInf)"
| "float_div rnd a b = NaN"

definition fdiv :: "cfloat \<Rightarrow> cfloat \<Rightarrow> cfloat" where
  "fdiv = float_div fl32"

definition ddiv :: "cfloat \<Rightarrow> cfloat \<Rightarrow> cfloat" where
  "ddiv = float_div fl64"

text \<open>The conversion of a \<open>double\<close> to \<open>float\<close>, which an assignment to a float applies.\<close>

fun float_of_double :: "cfloat \<Rightarrow> cfloat" where
  "float_of_double (Num a) = fl32 a"
| "float_of_double a = a"

text \<open>
  The comparison \<open>a < b\<close>, false as soon as one side is NaN, and a float used as a
  condition, true unless it is zero.
\<close>

fun float_less :: "cfloat \<Rightarrow> cfloat \<Rightarrow> bool" where
  "float_less (Num a) (Num b) = (a < b)"
| "float_less NaN b = False"
| "float_less a NaN = False"
| "float_less PInf b = False"
| "float_less a PInf = True"
| "float_less a NInf = False"
| "float_less NInf b = True"

definition float_to_bool :: "cfloat \<Rightarrow> bool" where
  "float_to_bool a \<longleftrightarrow> a \<noteq> Num 0"

text \<open>
  The sum of a list of floats as a loop \<open>s = 0; for (x : xs) s += x\<close> accumulates it:
  from the left, each addition rounded.
\<close>

definition fsum :: "cfloat list \<Rightarrow> cfloat" where
  "fsum xs = foldl fadd (Num 0) xs"

text \<open>
  \<open>throw runtime_error(msg)\<close> is the only way the modelled functions fail. An exception
  thrown inside an OpenMP \<open>parallel for\<close> does not reach the caller of the function:
  it cannot leave the parallel region, and the process ends there. \<open>terminated msg\<close>
  stands for that end, \<open>msg\<close> being the message of the exception.
\<close>

datatype error = runtime_error string | terminated string

text \<open>An integer in decimal, as \<open>fmt::format("{}", i)\<close> prints it.\<close>

fun format_nat :: "nat \<Rightarrow> string" where
  "format_nat n =
     (if n < 10 then [''0123456789'' ! n]
      else format_nat (n div 10) @ [''0123456789'' ! (n mod 10)])"

definition format_int :: "int \<Rightarrow> string" where
  "format_int i = (if i < 0 then ''-'' @ format_nat (nat (- i)) else format_nat (nat i))"

text \<open>
  \<open>pow(x, y)\<close> of the C library, for the arguments the trainable passes: a base that is
  positive (an iteration number \<open>\<ge> 1\<close>, or a ratio of two such numbers).
\<close>

definition pow :: "real \<Rightarrow> real \<Rightarrow> real" where
  "pow x y = x powr y"

section \<open>DiscountedCfrTrainable\<close>

text \<open>
  The fields of the class. \<open>alpha\<close>, \<open>beta\<close>, \<open>gamma\<close> and \<open>theta\<close> are members
  declared in the class header; their values are parameters here. Vectors are stored
  action-major: entry \<open>(action_id, private_id)\<close> is at
  \<open>action_id * card_number + private_id\<close>.
\<close>

record DiscountedCfrTrainable =
  action_number :: nat
  card_number :: nat
  alpha :: real
  beta :: real
  gamma :: real
  theta :: real
  evs :: "cfloat list"
  equities :: "cfloat list"
  r_plus :: "real list"
  r_plus_sum :: "real list"
  cum_r_plus :: "real list"

text \<open>The constructor: every table is allocated with its final size and filled with zero.\<close>

definition new_DiscountedCfrTrainable ::
  "nat \<Rightarrow> nat \<Rightarrow> real \<Rightarrow> real \<Rightarrow> real \<Rightarrow> real \<Rightarrow> DiscountedCfrTrainable" where
  "new_DiscountedCfrTrainable an cn a b g t =
     \<lparr> action_number = an, card_number = cn,
       alpha = a, beta = b, gamma = g, theta = t,
       evs = replicate (an * cn) (Num 0),
       equities = replicate (an * cn) (Num 0),
       r_plus = replicate (an * cn) 0,
       r_plus_sum = replicate cn 0,
       cum_r_plus = replicate (an * cn) 0 \<rparr>"

subsection \<open>setEv and setEquity\<close>

text \<open>
  The loop \<open>for (i = 0; i < v.size(); i++) if (v[i] == v[i]) stored[i] = v[i];\<close>
  shared by the two setters, started at index \<open>i\<close>.
\<close>

function assign_not_nan :: "cfloat list \<Rightarrow> nat \<Rightarrow> cfloat list \<Rightarrow> cfloat list" where
  "assign_not_nan v i stored =
     (if i < length v
      then assign_not_nan v (Suc i)
             (if float_eq (v ! i) (v ! i) then stored[i := v ! i] else stored)
      else stored)"
  by pat_completeness auto
termination
  by (relation "measure (\<lambda>(v, i, stored). length v - i)") auto

declare assign_not_nan.simps [simp del]

definition setEv :: "DiscountedCfrTrainable \<Rightarrow> cfloat list \<Rightarrow> error + DiscountedCfrTrainable" where
  "setEv tr new_evs =
     (if length new_evs \<noteq> length (evs tr)
      then Inl (runtime_error ''size mismatch in discountcfrtrainable setEV'')
      else Inr (tr\<lparr>evs := assign_not_nan new_evs 0 (evs tr)\<rparr>))"

definition setEquity :: "DiscountedCfrTrainable \<Rightarrow> cfloat list \<Rightarrow> error + DiscountedCfrTrainable" where
  "setEquity tr new_equities =
     (if length new_equities \<noteq> length (equities tr)
      then Inl (runtime_error ''size mismatch in discountcfrtrainable setEquity'')
      else Inr (tr\<lparr>equities := assign_not_nan new_equities 0 (equities tr)\<rparr>))"

subsection \<open>Strategies\<close>

text \<open>
  \<open>getAverageStrategy\<close>, in single precision: for each hand the entries of
  \<open>cum_r_plus\<close> are added up over the actions, in the order of the actions, and each
  entry is divided by that sum when the sum is nonzero (\<open>if (r_plus_sum)\<close>); otherwise
  the entry is \<open>1.0 / action_number\<close>, a quotient of two doubles converted to float by
  the assignment.
\<close>

definition getAverageStrategy :: "DiscountedCfrTrainable \<Rightarrow> cfloat list" where
  "getAverageStrategy tr =
     fold (\<lambda>private_id average_strategy.
        let r_plus_sum =
              fold (\<lambda>action_id s.
                      fadd s (Num (cum_r_plus tr ! (action_id * card_number tr + private_id))))
                [0..<action_number tr] (Num 0)
        in fold (\<lambda>action_id avg.
             let index = action_id * card_number tr + private_id
             in avg[index := (if float_to_bool r_plus_sum
                              then fdiv (Num (cum_r_plus tr ! index)) r_plus_sum
                              else float_of_double
                                     (ddiv (Num 1) (Num (real (action_number tr)))))])
             [0..<action_number tr] average_strategy)
       [0..<card_number tr]
       (replicate (action_number tr * card_number tr) (Num 0))"

text \<open>
  \<open>getcurrentStrategyNoCache\<close>: regret matching on the stored \<open>r_plus\<close> and
  \<open>r_plus_sum\<close>.
\<close>

definition getcurrentStrategyNoCache :: "DiscountedCfrTrainable \<Rightarrow> real list" where
  "getcurrentStrategyNoCache tr =
     (if r_plus_sum tr = []
      then replicate (action_number tr * card_number tr) (1 / real (action_number tr))
      else fold (\<lambda>action_id. fold (\<lambda>private_id current_strategy.
             let index = action_id * card_number tr + private_id
             in current_strategy[index :=
                  (if r_plus_sum tr ! private_id \<noteq> 0
                   then max 0 (r_plus tr ! index) / r_plus_sum tr ! private_id
                   else 1 / real (action_number tr))])
             [0..<card_number tr])
           [0..<action_number tr]
           (replicate (action_number tr * card_number tr) 0))"

definition getcurrentStrategy :: "DiscountedCfrTrainable \<Rightarrow> real list" where
  "getcurrentStrategy tr = getcurrentStrategyNoCache tr"

subsection \<open>updateRegrets\<close>

text \<open>
  The body of the first double loop of \<open>updateRegrets\<close> at \<open>(action_id, private_id)\<close>,
  on the pair \<open>(r_plus, r_plus_sum)\<close>: add the regret, discount by \<open>alpha_coef\<close> when
  the sum is positive and by \<open>beta\<close> otherwise, then accumulate the positive part.
\<close>

definition regret_step ::
  "nat \<Rightarrow> real list \<Rightarrow> real \<Rightarrow> real \<Rightarrow> nat \<Rightarrow> nat \<Rightarrow> real list \<times> real list
     \<Rightarrow> real list \<times> real list" where
  "regret_step cn regrets alpha_coef b action_id private_id st =
     (let index = action_id * cn + private_id;
          one_reg = regrets ! index;
          rp = (fst st)[index := one_reg + fst st ! index];
          rp = (if rp ! index > 0 then rp[index := rp ! index * alpha_coef]
                else rp[index := rp ! index * b]);
          rps = (snd st)[private_id := snd st ! private_id + max 0 (rp ! index)]
      in (rp, rps))"

text \<open>The body of the second double loop: discount the accumulated strategy and add.\<close>

definition cum_step ::
  "nat \<Rightarrow> real \<Rightarrow> real list \<Rightarrow> real \<Rightarrow> nat \<Rightarrow> nat \<Rightarrow> real list \<Rightarrow> real list" where
  "cum_step cn th current_strategy strategy_coef action_id private_id cum =
     (let index = action_id * cn + private_id;
          cum = cum[index := cum ! index * th]
      in cum[index := cum ! index + current_strategy ! index * strategy_coef])"

text \<open>
  \<open>updateRegrets(regrets, iteration_number, reach_probs)\<close>. The third argument is not
  read by the code.
\<close>

definition updateRegrets ::
  "DiscountedCfrTrainable \<Rightarrow> real list \<Rightarrow> int \<Rightarrow> real list \<Rightarrow> DiscountedCfrTrainable" where
  "updateRegrets tr regrets iteration_number reach_probs =
     (let alpha_coef = pow (real_of_int iteration_number) (alpha tr);
          alpha_coef = alpha_coef / (1 + alpha_coef);
          st = fold (\<lambda>action_id.
                 fold (regret_step (card_number tr) regrets alpha_coef (beta tr) action_id)
                   [0..<card_number tr])
               [0..<action_number tr]
               (r_plus tr, replicate (length (r_plus_sum tr)) 0);
          tr = tr\<lparr>r_plus := fst st, r_plus_sum := snd st\<rparr>;
          current_strategy = getcurrentStrategyNoCache tr;
          strategy_coef =
            pow (real_of_int iteration_number / real_of_int (iteration_number + 1)) (gamma tr)
      in tr\<lparr>cum_r_plus :=
              fold (\<lambda>action_id.
                 fold (cum_step (card_number tr) (theta tr) current_strategy strategy_coef action_id)
                   [0..<card_number tr])
               [0..<action_number tr]
               (cum_r_plus tr)\<rparr>)"

text \<open>
  The discount of one regret entry, as the first loop applies it: the factor
  \<open>alpha_coef\<close> on a positive entry, \<open>beta\<close> on any other.
\<close>

definition discount :: "real \<Rightarrow> real \<Rightarrow> real \<Rightarrow> real" where
  "discount ac b v = (if v > 0 then v * ac else v * b)"

text \<open>
  The value of \<open>alpha_coef\<close> at iteration number \<open>n\<close>:
  \<open>pow(n, alpha) / (1 + pow(n, alpha))\<close>.
\<close>

definition alpha_coef_of :: "real \<Rightarrow> int \<Rightarrow> real" where
  "alpha_coef_of al n = real_of_int n powr al / (1 + real_of_int n powr al)"

text \<open>
  The regret schedule test, following the words of the specification: a trainable is
  driven by \<open>updateRegrets\<close> with the constant regret 1 on every entry, at the
  iteration numbers \<open>1, 2, \<dots>, t\<close>.
\<close>

fun constant_regret_run :: "DiscountedCfrTrainable \<Rightarrow> nat \<Rightarrow> DiscountedCfrTrainable" where
  "constant_regret_run tr 0 = tr"
| "constant_regret_run tr (Suc t) =
     updateRegrets (constant_regret_run tr t)
       (replicate (action_number tr * card_number tr) 1) (int (Suc t)) []"

section \<open>Cards, boards and the solver state\<close>

text \<open>
  A card is an integer in \<open>[0, 52)\<close>: its suit is \<open>card mod 4\<close> and its rank is
  \<open>card div 4\<close>. A \<open>Card\<close> object of the deck carries that integer
  (\<open>getCardInt\<close>) and its position in the deck (\<open>getNumberInDeckInt\<close>).
\<close>

record Card =
  card_int :: nat
  card_number_in_deck :: nat

text \<open>
  Modelled from the spec: the static helpers of \<open>Card\<close>, whose source file is not part
  of the sources at hand. A board is a 52-bit mask of cards held in a 64-bit integer;
  \<open>boardInt2long\<close> is the bit of one card, \<open>boardInts2long\<close> the mask of a list
  of cards, \<open>boardsHasIntercept\<close> tests whether two masks share a card, and
  \<open>long2board\<close> lists the cards of a mask in ascending order.
\<close>

definition boardInt2long :: "nat \<Rightarrow> 64 word" where
  "boardInt2long c = push_bit c 1"

definition boardInts2long :: "nat list \<Rightarrow> 64 word" where
  "boardInts2long cs = fold (\<lambda>c b. b OR boardInt2long c) cs 0"

definition boardsHasIntercept :: "64 word \<Rightarrow> 64 word \<Rightarrow> bool" where
  "boardsHasIntercept a b = (a AND b \<noteq> 0)"

definition long2board :: "64 word \<Rightarrow> nat list" where
  "long2board b = filter (\<lambda>i. bit b i) [0..<52]"

text \<open>
  A hand of a range (\<open>PrivateCards\<close>): two cards and a weight. \<open>toBoardLong\<close> is the
  mask of its two cards.
\<close>

record PrivateCards =
  card1 :: nat
  card2 :: nat
  weight :: real

definition toBoardLong :: "PrivateCards \<Rightarrow> 64 word" where
  "toBoardLong h = boardInts2long [card1 h, card2 h]"

datatype MonteCarolAlg = NONE | PUBLIC

text \<open>
  The members of \<open>PCfrSolver\<close> that the modelled functions read or write.
  \<open>color_iso_offset\<close> is the table \<open>int [52 * 52 * 2][4]\<close>, zero at construction.
\<close>

record PCfrSolver =
  ranges :: "PrivateCards list list"
  initial_board_long :: "64 word"
  deck :: "Card list"
  color_iso_offset :: "int list list"
  iteration_number :: int
  print_interval :: int
  warmup :: int
  accuracy :: real
  logfile :: string
  monteCarolAlg :: MonteCarolAlg
  distributing_task :: bool
  enable_equity :: bool

definition color_iso_offset_init :: "int list list" where
  "color_iso_offset_init = replicate (52 * 52 * 2) (replicate 4 0)"

subsection \<open>findGameSpecificIsomorphisms\<close>

text \<open>
  The suit hash of a list of cards: for each card the bit of its rank is set in the
  16-bit entry of its suit (\<open>color_hash[card % 4] |= 1 << (card / 4)\<close>).
\<close>

definition add_color_hash :: "nat \<Rightarrow> 16 word list \<Rightarrow> 16 word list" where
  "add_color_hash c color_hash =
     (let rankind = c mod 4; suitind = c div 4
      in color_hash[rankind := color_hash ! rankind OR push_bit suitind 1])"

definition board_color_hash :: "nat list \<Rightarrow> 16 word list" where
  "board_color_hash board_cards = fold add_color_hash board_cards (replicate 4 0)"

text \<open>
  The loop that fills one row of the table:
  \<open>for i in 0..3: row[i] = 0; for j in 0..i-1: if (hash[i] == hash[j]) { row[i] = j - i; continue; }\<close>.
  The \<open>continue\<close> is the last statement of the inner body, so the inner loop always
  runs to \<open>j = i - 1\<close>.
\<close>

definition iso_row :: "16 word list \<Rightarrow> int list \<Rightarrow> int list" where
  "iso_row color_hash row =
     fold (\<lambda>i row.
        fold (\<lambda>j row. if color_hash ! i = color_hash ! j then row[i := int j - int i] else row)
          [0..<i] (row[i := 0]))
       [0..<4] row"

text \<open>
  \<open>findGameSpecificIsomorphisms\<close>. Its first loop, over the hands of both ranges, only
  fills a local array that is never read, so it has no counterpart here. Row 0 is
  the board alone; row \<open>deal + 1\<close> is the board with the deck card \<open>deal\<close> added.
\<close>

definition findGameSpecificIsomorphisms :: "PCfrSolver \<Rightarrow> PCfrSolver" where
  "findGameSpecificIsomorphisms s =
     (let board_cards = long2board (initial_board_long s);
          tbl = color_iso_offset s;
          tbl = tbl[0 := iso_row (board_color_hash board_cards) (tbl ! 0)];
          tbl = fold (\<lambda>deal tbl.
                  let color_hash = board_color_hash board_cards;
                      one_card = deck s ! deal;
                      color_hash = add_color_hash (card_int one_card) color_hash
                  in tbl[deal + 1 := iso_row color_hash (tbl ! (deal + 1))])
                [0..<length (deck s)] tbl
      in s\<lparr>color_iso_offset := tbl\<rparr>)"

subsection \<open>train\<close>

text \<open>
  What the driver does, as a trace. The traversal \<open>cfr\<close> and the best-response
  measurement are collaborators of the loop: a call of \<open>cfr\<close> for iteration \<open>i\<close> and
  a player is the event \<open>Cfr i player\<close>, a call
  \<open>br.printExploitability(root, k, \<dots>)\<close> is the event \<open>PrintExploitability k\<close>, and a
  line written to the log file for iteration \<open>i\<close> is \<open>LogLine i\<close>. The value that the
  probe of iteration \<open>i\<close> returns is given by a function of \<open>i\<close>.
\<close>

datatype event = Cfr int nat | PrintExploitability int | LogLine int

text \<open>
  The loop \<open>for (int i = 0; i < iteration_number; i++)\<close> of \<open>train\<close>, from iteration
  \<open>i\<close> on, appending to the trace so far. The test
  \<open>i % print_interval == 0 && i != 0 && i >= warmup\<close> evaluates the remainder first, so
  \<open>print_interval = 0\<close> is a division by zero in the first iteration: the loop then has
  no result (\<open>None\<close>). \<open>smod\<close> is the remainder of C++ (truncated division).
\<close>

function train_loop :: "PCfrSolver \<Rightarrow> (int \<Rightarrow> real) \<Rightarrow> int \<Rightarrow> event list \<Rightarrow> event list option" where
  "train_loop s exploitability i trace =
     (if i < iteration_number s
      then (let trace = trace @ [Cfr i 0, Cfr i 1]
            in if print_interval s = 0 then None
               else if i smod print_interval s = 0 \<and> i \<noteq> 0 \<and> i \<ge> warmup s
               then (let expliotibility = exploitability i;
                         trace = trace @ [PrintExploitability (i + 1)];
                         trace = (if logfile s \<noteq> [] then trace @ [LogLine i] else trace)
                     in if expliotibility \<le> accuracy s then Some trace
                        else train_loop s exploitability (i + 1) trace)
               else train_loop s exploitability (i + 1) trace)
      else Some trace)"
  by pat_completeness auto
termination
  by (relation "measure (\<lambda>(s, exploitability, i, trace). nat (iteration_number s - i))") auto

declare train_loop.simps [simp del]

text \<open>
  \<open>train\<close>: the exploitability is printed once before the loop, with iteration
  argument 0, and then the loop runs from iteration 0.
\<close>

definition train :: "PCfrSolver \<Rightarrow> (int \<Rightarrow> real) \<Rightarrow> event list option" where
  "train s exploitability = train_loop s exploitability 0 [PrintExploitability 0]"

text \<open>
  The condition under which iteration \<open>i\<close> probes, and the condition under which it
  ends the loop.
\<close>

definition probes_at :: "PCfrSolver \<Rightarrow> int \<Rightarrow> bool" where
  "probes_at s i \<longleftrightarrow> i smod print_interval s = 0 \<and> i \<noteq> 0 \<and> i \<ge> warmup s"

definition stops_at :: "PCfrSolver \<Rightarrow> (int \<Rightarrow> real) \<Rightarrow> int \<Rightarrow> bool" where
  "stops_at s exploitability i \<longleftrightarrow> probes_at s i \<and> exploitability i \<le> accuracy s"

text \<open>
  No iteration \<open>j\<close> with \<open>i \<le> j < k\<close> ends the loop: the loop started at \<open>i\<close>
  reaches iteration \<open>k\<close>.
\<close>

definition no_stop_between :: "PCfrSolver \<Rightarrow> (int \<Rightarrow> real) \<Rightarrow> int \<Rightarrow> int \<Rightarrow> bool" where
  "no_stop_between s exploitability i k \<longleftrightarrow>
     (\<forall>j. i \<le> j \<and> j < k \<longrightarrow> \<not> stops_at s exploitability j)"

subsection \<open>Ranges\<close>

text \<open>
  \<open>playerHands\<close>: the range of player 0 or 1 (\<open>range1\<close> and \<open>range2\<close> are the two
  entries of \<open>ranges\<close>); any other player number throws.
\<close>

definition playerHands :: "PCfrSolver \<Rightarrow> int \<Rightarrow> error + PrivateCards list" where
  "playerHands s player =
     (if player = 0 then Inr (ranges s ! 0)
      else if player = 1 then Inr (ranges s ! 1)
      else Inl (runtime_error ''player not found''))"

text \<open>
  Modelled from the spec: \<open>PrivateCardsManager::indPlayer2Player(from, to, i)\<close>, whose
  source file is not part of the sources at hand. A hand is an unordered pair of cards;
  the function returns the index, in the range of player \<open>to\<close>, of the hand identical
  to hand \<open>i\<close> of player \<open>from\<close>, and \<open>-1\<close> when that range does not hold it.
\<close>

definition same_hand :: "PrivateCards \<Rightarrow> PrivateCards \<Rightarrow> bool" where
  "same_hand h g \<longleftrightarrow>
     (card1 h = card1 g \<and> card2 h = card2 g) \<or> (card1 h = card2 g \<and> card2 h = card1 g)"

fun hand_index :: "PrivateCards \<Rightarrow> PrivateCards list \<Rightarrow> nat \<Rightarrow> int" where
  "hand_index h [] k = - 1"
| "hand_index h (g # gs) k = (if same_hand h g then int k else hand_index h gs (Suc k))"

definition indPlayer2Player :: "PCfrSolver \<Rightarrow> int \<Rightarrow> int \<Rightarrow> nat \<Rightarrow> int" where
  "indPlayer2Player s from_player to_player i =
     hand_index (ranges s ! nat from_player ! i) (ranges s ! nat to_player) 0"

subsection \<open>terminalUtility\<close>

text \<open>
  The result of a traversal: the payoff and the equity of every hand of the player.
  The entries are floats, of type \<open>'f\<close>: \<open>cfloat\<close> where the traversal is modelled in
  single precision, \<open>real\<close> where it is modelled on the reals.
\<close>

record 'f CfrResult =
  payoffs :: "'f list"
  equity :: "'f list"

text \<open>
  The first loop of \<open>terminalUtility\<close>, at opponent hand \<open>i\<close>, on the pair
  \<open>(oppo_sum, oppo_card_sum)\<close>; every \<open>+=\<close> is a single-precision addition.
\<close>

definition oppo_sum_step ::
  "PrivateCards list \<Rightarrow> cfloat list \<Rightarrow> nat \<Rightarrow> cfloat \<times> cfloat list \<Rightarrow> cfloat \<times> cfloat list" where
  "oppo_sum_step oppo_hand reach_prob i st =
     (let oppo_card_sum = snd st;
          oppo_card_sum = oppo_card_sum[card1 (oppo_hand ! i) :=
                            fadd (oppo_card_sum ! card1 (oppo_hand ! i)) (reach_prob ! i)];
          oppo_card_sum = oppo_card_sum[card2 (oppo_hand ! i) :=
                            fadd (oppo_card_sum ! card2 (oppo_hand ! i)) (reach_prob ! i)]
      in (fadd (fst st) (reach_prob ! i), oppo_card_sum))"

text \<open>
  The second loop, at player hand \<open>i\<close>, on the pair \<open>(payoffs, equity)\<close>: a hand that
  overlaps the board is skipped, any other hand gets the payoff times the opponent
  reach that its two cards do not block, computed from left to right as
  \<open>((oppo_sum - oppo_card_sum[card1]) - oppo_card_sum[card2]) + plus_reach_prob\<close>.
\<close>

definition terminal_step ::
  "PCfrSolver \<Rightarrow> int \<Rightarrow> cfloat \<Rightarrow> PrivateCards list \<Rightarrow> cfloat list \<Rightarrow> 64 word \<Rightarrow>
     cfloat \<Rightarrow> cfloat list \<Rightarrow> nat \<Rightarrow> cfloat list \<times> cfloat list \<Rightarrow> cfloat list \<times> cfloat list" where
  "terminal_step s player player_payoff player_hand reach_prob current_board
       oppo_sum oppo_card_sum i st =
     (let one_player_hand = player_hand ! i
      in if boardsHasIntercept current_board
              (boardInts2long [card1 one_player_hand, card2 one_player_hand])
         then st
         else
           (let oppo_same_card_ind = indPlayer2Player s player (1 - player) i;
                plus_reach_prob =
                  (if oppo_same_card_ind = - 1 then Num 0
                   else reach_prob ! nat oppo_same_card_ind);
                effective_oppo_reach =
                  fadd (fsub (fsub oppo_sum (oppo_card_sum ! card1 one_player_hand))
                             (oppo_card_sum ! card2 one_player_hand))
                       plus_reach_prob
            in ((fst st)[i := fmul player_payoff effective_oppo_reach],
                if enable_equity s
                then (snd st)[i := (if float_less (Num 0) player_payoff
                                    then effective_oppo_reach else Num 0)]
                else snd st)))"

text \<open>
  \<open>terminalUtility(player, node, reach_prob, iter, current_board, deal)\<close>; of the node
  only its payoff vector is read, and \<open>iter\<close> and \<open>deal\<close> are not read at all.
\<close>

definition terminalUtility ::
  "PCfrSolver \<Rightarrow> int \<Rightarrow> cfloat list \<Rightarrow> cfloat list \<Rightarrow> 64 word \<Rightarrow> error + cfloat CfrResult" where
  "terminalUtility s player node_payoffs reach_prob current_board =
     (let player_payoff = node_payoffs ! nat player;
          oppo = 1 - player
      in case playerHands s player of
           Inl err \<Rightarrow> Inl err
         | Inr player_hand \<Rightarrow>
             (case playerHands s oppo of
                Inl err \<Rightarrow> Inl err
              | Inr oppo_hand \<Rightarrow>
                  (let payoffs0 = replicate (length player_hand) (Num 0);
                       equity0 = (if enable_equity s
                                  then replicate (length player_hand) (Num 0) else []);
                       oppo_sums = fold (oppo_sum_step oppo_hand reach_prob) [0..<length oppo_hand]
                                (Num 0, replicate 52 (Num 0));
                       res = fold (terminal_step s player player_payoff player_hand reach_prob
                                     current_board (fst oppo_sums) (snd oppo_sums))
                               [0..<length player_hand] (payoffs0, equity0)
                   in Inr \<lparr>payoffs = fst res, equity = snd res\<rparr>)))"

text \<open>
  A hand is well formed when its two cards are different cards of the 52; a hand
  contains a card when the card is one of its two.
\<close>

definition hand_ok :: "PrivateCards \<Rightarrow> bool" where
  "hand_ok h \<longleftrightarrow> card1 h < 52 \<and> card2 h < 52 \<and> card1 h \<noteq> card2 h"

definition has_card :: "PrivateCards \<Rightarrow> nat \<Rightarrow> bool" where
  "has_card h c \<longleftrightarrow> card1 h = c \<or> card2 h = c"

subsection \<open>chanceUtility\<close>

text \<open>
  The warm-up multiplier of \<open>chanceUtility\<close> (computed when \<open>iter <= warmup\<close>). For each
  group of four cards \<open>card_base\<close> one card is drawn, \<open>cardr = std::rand() % 4\<close>, and
  receives the number of cards of the group that are not on the board; every other card
  keeps 0. The drawn values are an input here: \<open>rands ! card_base\<close> is the value of
  \<open>std::rand() % 4\<close> for that group.
\<close>

definition multiplier_num_of :: "Card list \<Rightarrow> 64 word \<Rightarrow> nat \<Rightarrow> nat" where
  "multiplier_num_of cards current_board card_base =
     fold (\<lambda>i multiplier_num.
        if \<not> boardsHasIntercept (boardInt2long (card_int (cards ! (card_base * 4 + i)))) current_board
        then multiplier_num + 1 else multiplier_num)
       [0..<4] 0"

definition chance_multiplier :: "Card list \<Rightarrow> 64 word \<Rightarrow> nat list \<Rightarrow> real list" where
  "chance_multiplier cards current_board rands =
     fold (\<lambda>card_base multiplier.
        let cardr = rands ! card_base;
            card_target = card_base * 4 + cardr
        in multiplier[card_target := real (multiplier_num_of cards current_board card_base)])
       [0..<length cards div 4] (replicate (length cards) 0)"

text \<open>
  The loop that collects \<open>valid_cards\<close>: a card is skipped when it is on the board,
  when the iteration is a warm-up iteration and its multiplier is 0, or when the offset
  of its suit in row \<open>deal\<close> of the isomorphism table is negative.
\<close>

definition chance_valid_cards ::
  "PCfrSolver \<Rightarrow> Card list \<Rightarrow> int \<Rightarrow> 64 word \<Rightarrow> int \<Rightarrow> real list \<Rightarrow> nat list" where
  "chance_valid_cards s cards iter current_board deal multiplier =
     fold (\<lambda>card_i valid_cards.
        let card_long = boardInt2long (card_int (cards ! card_i))
        in if boardsHasIntercept card_long current_board then valid_cards
           else if iter \<le> warmup s \<and> multiplier ! card_i = 0 then valid_cards
           else if color_iso_offset s ! nat deal ! (card_int (cards ! card_i) mod 4) < 0 then valid_cards
           else valid_cards @ [card_i])
       [0..<length cards] []"

text \<open>
  The reach vector handed to the child under a dealt card: 0 for an opponent hand that
  holds the card, the old reach divided by \<open>possible_deals\<close> for any other.
\<close>

definition chance_new_reach :: "PrivateCards list \<Rightarrow> real list \<Rightarrow> 64 word \<Rightarrow> int \<Rightarrow> real list" where
  "chance_new_reach oppo_hands reach_probs card_long possible_deals =
     fold (\<lambda>player_hand new_reach_probs.
        if boardsHasIntercept card_long (toBoardLong (oppo_hands ! player_hand))
        then new_reach_probs[player_hand := 0]
        else new_reach_probs[player_hand := reach_probs ! player_hand / real_of_int possible_deals])
       [0..<length oppo_hands] (replicate (length oppo_hands) 0)"

text \<open>
  The arguments of one recursive call \<open>cfr(player, child, new_reach_probs, iter,
  new_board_long, new_deal)\<close> made by the chance node, with the index of the dealt card.
\<close>

record chance_call =
  call_card :: nat
  call_board :: "64 word"
  call_reach :: "real list"
  call_deal :: int

text \<open>
  The body of the loop over \<open>valid_cards\<close> up to the recursive call, for the card at index \<open>card_i\<close>
  (the loop variable \<open>card\<close> of the source):
  the new board, the new reach and the new deal, or the exception the body throws.
  The body runs inside the \<open>parallel for\<close>, so these exceptions end the process.
  \<open>at_split_round\<close> tells whether the round of the node is the split round; with
  \<open>distributing_task\<close> set, such a node stores an empty result and makes no call
  (\<open>None\<close>).
\<close>

definition chance_call_of ::
  "PCfrSolver \<Rightarrow> int \<Rightarrow> Card list \<Rightarrow> bool \<Rightarrow> real list \<Rightarrow> 64 word \<Rightarrow> int \<Rightarrow> int \<Rightarrow> nat
     \<Rightarrow> error + chance_call option" where
  "chance_call_of s player cards at_split_round reach_probs current_board deal possible_deals card_i =
     (let card_num = int (length cards);
          card_long = boardInt2long (card_int (cards ! card_i));
          new_board_long = current_board OR card_long
      in if monteCarolAlg s = PUBLIC
         then Inl (terminated ''parallel solver don't support public monte carol'')
         else
           (let new_reach_probs =
                  chance_new_reach (ranges s ! nat (1 - player)) reach_probs card_long possible_deals
            in if deal = 0
               then (if distributing_task s \<and> at_split_round then Inr None
                     else Inr (Some \<lparr>call_card = card_i, call_board = new_board_long,
                                     call_reach = new_reach_probs, call_deal = int card_i + 1\<rparr>))
               else if deal > 0 \<and> deal \<le> card_num
               then (if distributing_task s \<and> at_split_round then Inr None
                     else Inr (Some \<lparr>call_card = card_i, call_board = new_board_long,
                                     call_reach = new_reach_probs,
                                     call_deal = card_num * (deal - 1) + int card_i + (1 + card_num)\<rparr>))
               else Inl (terminated (''deal out of range : '' @ format_int deal @ '' ''))))"

text \<open>
  The calls a chance node makes, in the order of \<open>valid_cards\<close>; the first exception
  ends the traversal. (The loop is an OpenMP \<open>parallel for\<close>; the calls are listed in
  index order.)
\<close>

fun collect_calls :: "(nat \<Rightarrow> error + chance_call option) \<Rightarrow> nat list \<Rightarrow> error + chance_call list" where
  "collect_calls f [] = Inr []"
| "collect_calls f (card_i # valid_cards) =
     (case f card_i of
        Inl err \<Rightarrow> Inl err
      | Inr c \<Rightarrow>
          (case collect_calls f valid_cards of
             Inl err \<Rightarrow> Inl err
           | Inr cs \<Rightarrow> Inr (case c of None \<Rightarrow> cs | Some call \<Rightarrow> call # cs)))"

text \<open>
  \<open>chanceUtility\<close> up to and including its recursive calls: the size check, the
  number of possible deals, the multiplier, the valid cards and the calls. The
  accumulation of the children's results that follows is not part of this function.
\<close>

definition chance_child_calls ::
  "PCfrSolver \<Rightarrow> int \<Rightarrow> Card list \<Rightarrow> bool \<Rightarrow> real list \<Rightarrow> int \<Rightarrow> 64 word \<Rightarrow> int \<Rightarrow> nat list
     \<Rightarrow> error + chance_call list" where
  "chance_child_calls s player cards at_split_round reach_probs iter current_board deal rands =
     (let card_num = length cards
      in if card_num mod 4 \<noteq> 0 then Inl (runtime_error ''card num cannot round 4'')
         else
           (let possible_deals = int (length cards) - int (length (long2board current_board)) - 2;
                multiplier = (if iter \<le> warmup s then chance_multiplier cards current_board rands else []);
                valid_cards = chance_valid_cards s cards iter current_board deal multiplier
            in collect_calls
                 (chance_call_of s player cards at_split_round reach_probs current_board deal possible_deals)
                 valid_cards))"

subsection \<open>showdownUtility\<close>

text \<open>
  An entry of the river rank cache: a hand of a range, its rank on the board (a lower
  number is a stronger hand) and the index of the hand in the range.
\<close>

record RiverCombs =
  private_cards :: PrivateCards
  rank :: int
  reach_prob_index :: nat

text \<open>
  The three statements that add one opponent entry to a running sum and to the per-card
  sums: \<open>sum += reach_probs[idx]; card_sum[card1] += reach_probs[idx];
  card_sum[card2] += reach_probs[idx]\<close>.
\<close>

definition add_oppo_comb :: "real list \<Rightarrow> RiverCombs \<Rightarrow> real \<times> real list \<Rightarrow> real \<times> real list" where
  "add_oppo_comb reach_probs one_oppo_comb st =
     (let r = reach_probs ! reach_prob_index one_oppo_comb;
          card_sum = snd st;
          card_sum = card_sum[card1 (private_cards one_oppo_comb) :=
                       card_sum ! card1 (private_cards one_oppo_comb) + r];
          card_sum = card_sum[card2 (private_cards one_oppo_comb) :=
                       card_sum ! card2 (private_cards one_oppo_comb) + r]
      in (fst st + r, card_sum))"

text \<open>
  The inner loop of the first pass:
  \<open>while (j < oppo_combs.size() && one_player_comb.rank < oppo_combs[j].rank) { \<dots>; j++; }\<close>
\<close>

function win_scan ::
  "RiverCombs list \<Rightarrow> real list \<Rightarrow> RiverCombs \<Rightarrow> nat \<times> real \<times> real list \<Rightarrow> nat \<times> real \<times> real list" where
  "win_scan oppo_combs reach_probs one_player_comb (j, winsum, card_winsum) =
     (if j < length oppo_combs \<and> rank one_player_comb < rank (oppo_combs ! j)
      then win_scan oppo_combs reach_probs one_player_comb
             (j + 1, add_oppo_comb reach_probs (oppo_combs ! j) (winsum, card_winsum))
      else (j, winsum, card_winsum))"
  by pat_completeness auto
termination
  by (relation "measure (\<lambda>(oppo_combs, reach_probs, one_player_comb, j, st). length oppo_combs - j)")
     auto

declare win_scan.simps [simp del]

text \<open>
  The inner loop of the second pass:
  \<open>while (j >= 0 && one_player_comb.rank > oppo_combs[j].rank) { \<dots>; j--; }\<close>
\<close>

function loss_scan ::
  "RiverCombs list \<Rightarrow> real list \<Rightarrow> RiverCombs \<Rightarrow> int \<times> real \<times> real list \<Rightarrow> int \<times> real \<times> real list" where
  "loss_scan oppo_combs reach_probs one_player_comb (j, losssum, card_losssum) =
     (if j \<ge> 0 \<and> rank one_player_comb > rank (oppo_combs ! nat j)
      then loss_scan oppo_combs reach_probs one_player_comb
             (j - 1, add_oppo_comb reach_probs (oppo_combs ! nat j) (losssum, card_losssum))
      else (j, losssum, card_losssum))"
  by pat_completeness auto
termination
  by (relation "measure (\<lambda>(oppo_combs, reach_probs, one_player_comb, j, st). nat (j + 1))") auto

declare loss_scan.simps [simp del]

text \<open>\<open>sum - card_sum[card1] - card_sum[card2]\<close> for the two cards of a hand.\<close>

definition effective_sum :: "real \<times> real list \<Rightarrow> PrivateCards \<Rightarrow> real" where
  "effective_sum st h = fst st - snd st ! card1 h - snd st ! card2 h"

text \<open>
  The body of the first pass at player entry \<open>i\<close>, on \<open>(j, winsum, card_winsum)\<close> and
  \<open>payoffs\<close>: advance the pointer, then store the payoff of the wins.
\<close>

definition win_pass_step ::
  "RiverCombs list \<Rightarrow> RiverCombs list \<Rightarrow> real list \<Rightarrow> real \<Rightarrow> nat
     \<Rightarrow> (nat \<times> real \<times> real list) \<times> real list \<Rightarrow> (nat \<times> real \<times> real list) \<times> real list" where
  "win_pass_step player_combs oppo_combs reach_probs win_payoff i st =
     (let one_player_comb = player_combs ! i;
          scan = win_scan oppo_combs reach_probs one_player_comb (fst st);
          effective_winsum = effective_sum (snd scan) (private_cards one_player_comb)
      in (scan, (snd st)[reach_prob_index one_player_comb := effective_winsum * win_payoff]))"

text \<open>
  The body of the second pass at player entry \<open>i\<close>: move the pointer down, then add the
  payoff of the losses.
\<close>

definition loss_pass_step ::
  "RiverCombs list \<Rightarrow> RiverCombs list \<Rightarrow> real list \<Rightarrow> real \<Rightarrow> nat
     \<Rightarrow> (int \<times> real \<times> real list) \<times> real list \<Rightarrow> (int \<times> real \<times> real list) \<times> real list" where
  "loss_pass_step player_combs oppo_combs reach_probs lose_payoff i st =
     (let one_player_comb = player_combs ! i;
          scan = loss_scan oppo_combs reach_probs one_player_comb (fst st);
          effective_losssum = effective_sum (snd scan) (private_cards one_player_comb)
      in (scan, (snd st)[reach_prob_index one_player_comb :=
                   snd st ! reach_prob_index one_player_comb + effective_losssum * lose_payoff]))"

text \<open>
  The equity bookkeeping of the two passes, done only when \<open>enable_equity\<close> is set. It
  reads the sums of the pass and writes tables of its own; it never writes \<open>payoffs\<close>.
  In the first pass it records \<open>effective_winsum\<close> and \<open>effective_total\<close> of the hand, in
  the second it stores \<open>equity = effective_winsum + 0.5 * max(0, effective_tiesum)\<close>.
\<close>

definition win_equity_step ::
  "PCfrSolver \<Rightarrow> int \<Rightarrow> RiverCombs list \<Rightarrow> real list \<Rightarrow> real \<times> real list \<Rightarrow> nat
     \<Rightarrow> nat \<times> real \<times> real list \<Rightarrow> real list \<times> real list \<Rightarrow> real list \<times> real list" where
  "win_equity_step s player player_combs reach_probs oppo_totals i scan arrs =
     (let one_player_comb = player_combs ! i;
          effective_winsum = effective_sum (snd scan) (private_cards one_player_comb);
          effective_total = effective_sum oppo_totals (private_cards one_player_comb);
          oppo_same_card_ind =
            indPlayer2Player s player (1 - player) (reach_prob_index one_player_comb);
          effective_total =
            (if oppo_same_card_ind \<noteq> - 1 then effective_total + reach_probs ! nat oppo_same_card_ind
             else effective_total)
      in ((fst arrs)[reach_prob_index one_player_comb := effective_winsum],
          (snd arrs)[reach_prob_index one_player_comb := effective_total]))"

definition loss_equity_step ::
  "RiverCombs list \<Rightarrow> real list \<times> real list \<Rightarrow> nat \<Rightarrow> int \<times> real \<times> real list
     \<Rightarrow> real list \<Rightarrow> real list" where
  "loss_equity_step player_combs arrs i scan equity_vec =
     (let one_player_comb = player_combs ! i;
          effective_losssum = effective_sum (snd scan) (private_cards one_player_comb);
          idx = reach_prob_index one_player_comb;
          effective_winsum = fst arrs ! idx;
          effective_total = snd arrs ! idx;
          effective_tiesum = effective_total - effective_winsum - effective_losssum;
          effective_tiesum = (if effective_tiesum < 0 then 0 else effective_tiesum)
      in equity_vec[idx := effective_winsum + 0.5 * effective_tiesum])"

text \<open>
  \<open>showdownUtility\<close>. The payoffs of the node, \<open>win_payoff\<close> and \<open>lose_payoff\<close>, and
  the two sequences of the river rank cache, \<open>player_combs\<close> and \<open>oppo_combs\<close>, are
  what the function obtains from the node and from \<open>rrm.getRiverCombos\<close>; they are
  arguments here. The first pass runs over the player entries upwards, the second
  downwards from the last entry, with \<open>j\<close> starting at \<open>oppo_combs.size() - 1\<close>.
\<close>

definition showdownUtility ::
  "PCfrSolver \<Rightarrow> int \<Rightarrow> real \<Rightarrow> real \<Rightarrow> RiverCombs list \<Rightarrow> RiverCombs list \<Rightarrow> real list
     \<Rightarrow> real CfrResult" where
  "showdownUtility s player win_payoff lose_payoff player_combs oppo_combs reach_probs =
     (let n = length (ranges s ! nat player);
          payoffs0 = replicate n 0;
          arrs0 = (if enable_equity s then (replicate n 0, replicate n 0) else ([], []));
          oppo_totals =
            (if enable_equity s
             then fold (\<lambda>i. add_oppo_comb reach_probs (oppo_combs ! i)) [0..<length oppo_combs]
                    (0, replicate 52 0)
             else (0, []));
          pass1 =
            fold (\<lambda>i st.
                    let core = win_pass_step player_combs oppo_combs reach_probs win_payoff i (fst st)
                    in (core,
                        if enable_equity s
                        then win_equity_step s player player_combs reach_probs oppo_totals i
                               (fst core) (snd st)
                        else snd st))
              [0..<length player_combs]
              (((0, 0, replicate 52 0), payoffs0), arrs0);
          equity0 = (if enable_equity s then replicate n 0 else []);
          pass2 =
            fold (\<lambda>i st.
                    let core = loss_pass_step player_combs oppo_combs reach_probs lose_payoff i (fst st)
                    in (core,
                        if enable_equity s
                        then loss_equity_step player_combs (snd pass1) i (fst core) (snd st)
                        else snd st))
              (rev [0..<length player_combs])
              (((int (length oppo_combs) - 1, 0, replicate 52 0), snd (fst pass1)), equity0)
      in \<lparr>payoffs = snd (fst pass2), equity = snd pass2\<rparr>)"

text \<open>
  The order the two passes rely on: along the sequence the rank number never increases
  (the weakest hand first).
\<close>

definition rank_descending :: "RiverCombs list \<Rightarrow> bool" where
  "rank_descending combs \<longleftrightarrow>
     (\<forall>a b. a \<le> b \<and> b < length combs \<longrightarrow> rank (combs ! b) \<le> rank (combs ! a))"

text \<open>
  The sums over the first \<open>n\<close> opponent entries, and over the entries from \<open>m\<close> on:
  the total reach and, for each card, the reach of the entries holding it.
\<close>

definition prefix_sums :: "real list \<Rightarrow> RiverCombs list \<Rightarrow> nat \<Rightarrow> real \<times> real list" where
  "prefix_sums reach combs n =
     (\<Sum>k<n. reach ! reach_prob_index (combs ! k),
      map (\<lambda>c. \<Sum>k<n. if has_card (private_cards (combs ! k)) c
                        then reach ! reach_prob_index (combs ! k) else 0) [0..<52])"

definition suffix_sums :: "real list \<Rightarrow> RiverCombs list \<Rightarrow> nat \<Rightarrow> real \<times> real list" where
  "suffix_sums reach combs m =
     (\<Sum>k\<in>{m..<length combs}. reach ! reach_prob_index (combs ! k),
      map (\<lambda>c. \<Sum>k\<in>{m..<length combs}. if has_card (private_cards (combs ! k)) c
                        then reach ! reach_prob_index (combs ! k) else 0) [0..<52])"

text \<open>
  How far the pointers go for a player rank \<open>r\<close>: the number of leading opponent
  entries with a rank number above \<open>r\<close>, and the index from which the trailing entries
  have a rank number below \<open>r\<close>.
\<close>

definition win_bound :: "RiverCombs list \<Rightarrow> int \<Rightarrow> nat" where
  "win_bound oc r = length (takeWhile (\<lambda>g. r < rank g) oc)"

definition loss_bound :: "RiverCombs list \<Rightarrow> int \<Rightarrow> nat" where
  "loss_bound oc r = length oc - length (takeWhile (\<lambda>g. rank g < r) (rev oc))"

section \<open>Properties of the setters\<close>

lemma float_eq_refl_iff: "float_eq x x \<longleftrightarrow> x \<noteq> NaN"
  by (cases x) simp_all

lemma length_assign_not_nan: "length (assign_not_nan v i stored) = length stored"
proof (induction v i stored rule: assign_not_nan.induct)
  case (1 v i stored)
  show ?case
  proof (cases "i < length v")
    case True
    with 1 show ?thesis by (subst assign_not_nan.simps) simp
  next
    case False
    then show ?thesis by (subst assign_not_nan.simps) simp
  qed
qed

lemma nth_assign_not_nan:
  "length stored = length v \<Longrightarrow>
   assign_not_nan v i stored ! k =
     (if i \<le> k \<and> k < length v \<and> v ! k \<noteq> NaN then v ! k else stored ! k)"
proof (induction v i stored rule: assign_not_nan.induct)
  case (1 v i stored)
  show ?case
  proof (cases "i < length v")
    case True
    let ?s = "if float_eq (v ! i) (v ! i) then stored[i := v ! i] else stored"
    have len: "length ?s = length v" using 1(2) by simp
    have "assign_not_nan v i stored ! k = assign_not_nan v (Suc i) ?s ! k"
      using True by (subst assign_not_nan.simps) simp
    also have "\<dots> = (if Suc i \<le> k \<and> k < length v \<and> v ! k \<noteq> NaN then v ! k else ?s ! k)"
      using 1(1)[OF True len] .
    also have "\<dots> = (if i \<le> k \<and> k < length v \<and> v ! k \<noteq> NaN then v ! k else stored ! k)"
      using True 1(2) by (auto simp: float_eq_refl_iff nth_list_update)
    finally show ?thesis .
  next
    case False
    then show ?thesis by (subst assign_not_nan.simps) auto
  qed
qed

lemma assign_not_nan_keeps_clean:
  assumes "length stored = length v" and "NaN \<notin> set stored"
  shows "NaN \<notin> set (assign_not_nan v 0 stored)"
proof
  assume "NaN \<in> set (assign_not_nan v 0 stored)"
  then obtain k where k: "k < length stored" and nan: "assign_not_nan v 0 stored ! k = NaN"
    by (auto simp: in_set_conv_nth length_assign_not_nan)
  have "assign_not_nan v 0 stored ! k = (if v ! k \<noteq> NaN then v ! k else stored ! k)"
    using nth_assign_not_nan[OF assms(1), of 0 k] k assms(1) by simp
  with nan have "stored ! k = NaN" by (auto split: if_splits)
  with k assms(2) show False by (metis nth_mem)
qed

text \<open>
  C10. \<open>setEv\<close> (and likewise \<open>setEquity\<close>) throws exactly when the length of the input
  differs from \<open>action_number * card_number\<close>, the size the constructor gave the table.
  Otherwise every entry whose input is not NaN is overwritten with the input, every entry
  whose input is NaN keeps its stored value, nothing else of the trainable changes, and a
  table free of NaN stays free of NaN.
\<close>

theorem setEv_setEquity_skip_nan:
  assumes "length (evs tr) = action_number tr * card_number tr"
      and "length (equities tr) = action_number tr * card_number tr"
  shows "(isl (setEv tr v) \<longleftrightarrow> length v \<noteq> action_number tr * card_number tr) \<and>
         (\<forall>tr'. setEv tr v = Inr tr' \<longrightarrow>
            tr' = tr\<lparr>evs := evs tr'\<rparr> \<and>
            length (evs tr') = action_number tr * card_number tr \<and>
            (\<forall>i < action_number tr * card_number tr.
               evs tr' ! i = (if v ! i = NaN then evs tr ! i else v ! i)) \<and>
            (NaN \<notin> set (evs tr) \<longrightarrow> NaN \<notin> set (evs tr'))) \<and>
         (isl (setEquity tr v) \<longleftrightarrow> length v \<noteq> action_number tr * card_number tr) \<and>
         (\<forall>tr'. setEquity tr v = Inr tr' \<longrightarrow>
            tr' = tr\<lparr>equities := equities tr'\<rparr> \<and>
            length (equities tr') = action_number tr * card_number tr \<and>
            (\<forall>i < action_number tr * card_number tr.
               equities tr' ! i = (if v ! i = NaN then equities tr ! i else v ! i)) \<and>
            (NaN \<notin> set (equities tr) \<longrightarrow> NaN \<notin> set (equities tr')))"
proof -
  have ev_throw: "isl (setEv tr v) \<longleftrightarrow> length v \<noteq> action_number tr * card_number tr"
    using assms(1) by (simp add: setEv_def)
  have eq_throw: "isl (setEquity tr v) \<longleftrightarrow> length v \<noteq> action_number tr * card_number tr"
    using assms(2) by (simp add: setEquity_def)
  have ev_ok: "tr' = tr\<lparr>evs := evs tr'\<rparr> \<and>
            length (evs tr') = action_number tr * card_number tr \<and>
            (\<forall>i < action_number tr * card_number tr.
               evs tr' ! i = (if v ! i = NaN then evs tr ! i else v ! i)) \<and>
            (NaN \<notin> set (evs tr) \<longrightarrow> NaN \<notin> set (evs tr'))"
    if "setEv tr v = Inr tr'" for tr'
  proof -
    from that have len: "length (evs tr) = length v"
      and tr': "tr' = tr\<lparr>evs := assign_not_nan v 0 (evs tr)\<rparr>"
      by (auto simp: setEv_def split: if_splits)
    have e: "evs tr' = assign_not_nan v 0 (evs tr)" using tr' by simp
    show ?thesis
      using tr' assms(1) len
      by (auto simp: e length_assign_not_nan nth_assign_not_nan assign_not_nan_keeps_clean)
  qed
  have eq_ok: "tr' = tr\<lparr>equities := equities tr'\<rparr> \<and>
            length (equities tr') = action_number tr * card_number tr \<and>
            (\<forall>i < action_number tr * card_number tr.
               equities tr' ! i = (if v ! i = NaN then equities tr ! i else v ! i)) \<and>
            (NaN \<notin> set (equities tr) \<longrightarrow> NaN \<notin> set (equities tr'))"
    if "setEquity tr v = Inr tr'" for tr'
  proof -
    from that have len: "length (equities tr) = length v"
      and tr': "tr' = tr\<lparr>equities := assign_not_nan v 0 (equities tr)\<rparr>"
      by (auto simp: setEquity_def split: if_splits)
    have e: "equities tr' = assign_not_nan v 0 (equities tr)" using tr' by simp
    show ?thesis
      using tr' assms(2) len
      by (auto simp: e length_assign_not_nan nth_assign_not_nan assign_not_nan_keeps_clean)
  qed
  from ev_throw eq_throw ev_ok eq_ok show ?thesis by blast
qed

theorem setEv_setEquity_skip_nan_witness:
  "length (evs (new_DiscountedCfrTrainable 1 2 (3/2) 0 2 1)) =
     action_number (new_DiscountedCfrTrainable 1 2 (3/2) 0 2 1) *
     card_number (new_DiscountedCfrTrainable 1 2 (3/2) 0 2 1) \<and>
   length (equities (new_DiscountedCfrTrainable 1 2 (3/2) 0 2 1)) =
     action_number (new_DiscountedCfrTrainable 1 2 (3/2) 0 2 1) *
     card_number (new_DiscountedCfrTrainable 1 2 (3/2) 0 2 1) \<and>
   isl (setEv (new_DiscountedCfrTrainable 1 2 (3/2) 0 2 1) [Num 7]) \<and>
   \<not> isl (setEv (new_DiscountedCfrTrainable 1 2 (3/2) 0 2 1) [NaN, Num 5]) \<and>
   evs (projr (setEv (new_DiscountedCfrTrainable 1 2 (3/2) 0 2 1) [NaN, Num 5])) ! 0 = Num 0 \<and>
   evs (projr (setEv (new_DiscountedCfrTrainable 1 2 (3/2) 0 2 1) [NaN, Num 5])) ! 1 = Num 5 \<and>
   NaN \<notin> set (evs (projr (setEv (new_DiscountedCfrTrainable 1 2 (3/2) 0 2 1) [NaN, Num 5])))"
proof -
  let ?tr = "new_DiscountedCfrTrainable 1 2 (3/2) 0 2 1"
  have h1: "length (evs ?tr) = action_number ?tr * card_number ?tr"
    by (simp add: new_DiscountedCfrTrainable_def)
  have h2: "length (equities ?tr) = action_number ?tr * card_number ?tr"
    by (simp add: new_DiscountedCfrTrainable_def)
  have e: "evs ?tr = [Num 0, Num 0]" "action_number ?tr * card_number ?tr = 2"
    by (simp_all add: new_DiscountedCfrTrainable_def numeral_2_eq_2)
  note t1 = setEv_setEquity_skip_nan[OF h1 h2, of "[Num 7]"]
  note t2 = setEv_setEquity_skip_nan[OF h1 h2, of "[NaN, Num 5]"]
  have a: "isl (setEv ?tr [Num 7])" using t1 unfolding e by simp
  have b: "\<not> isl (setEv ?tr [NaN, Num 5])" using t2 unfolding e by simp
  then have c: "setEv ?tr [NaN, Num 5] = Inr (projr (setEv ?tr [NaN, Num 5]))"
    by (cases "setEv ?tr [NaN, Num 5]") simp_all
  from t2 c have d: "(\<forall>i < 2. evs (projr (setEv ?tr [NaN, Num 5])) ! i =
        (if [NaN, Num 5] ! i = NaN then evs ?tr ! i else [NaN, Num 5] ! i)) \<and>
      (NaN \<notin> set (evs ?tr) \<longrightarrow> NaN \<notin> set (evs (projr (setEv ?tr [NaN, Num 5]))))"
    unfolding e(2) by blast
  from d have d0: "evs (projr (setEv ?tr [NaN, Num 5])) ! 0 = Num 0"
    and d1: "evs (projr (setEv ?tr [NaN, Num 5])) ! 1 = Num 5"
    and d2: "NaN \<notin> set (evs (projr (setEv ?tr [NaN, Num 5])))"
    unfolding e(1) by (simp_all add: numeral_2_eq_2)
  from h1 h2 a b d0 d1 d2 show ?thesis by blast
qed

section \<open>Properties of updateRegrets\<close>

lemma regret_step_eq:
  assumes "a * H + p < length r" "p < length s"
  shows "regret_step H regs ac b a p (r, s) =
           (r[a * H + p := discount ac b (regs ! (a * H + p) + r ! (a * H + p))],
            s[p := s ! p + max 0 (discount ac b (regs ! (a * H + p) + r ! (a * H + p)))])"
  using assms by (simp add: regret_step_def Let_def discount_def)

lemma regret_inner:
  assumes "a * H + n \<le> length r" "n \<le> length s"
  shows "fold (regret_step H regs ac b a) [0..<n] (r, s) =
           (map (\<lambda>i. if a * H \<le> i \<and> i < a * H + n then discount ac b (regs ! i + r ! i) else r ! i)
              [0..<length r],
            map (\<lambda>p. if p < n then s ! p + max 0 (discount ac b (regs ! (a * H + p) + r ! (a * H + p)))
                      else s ! p) [0..<length s])"
  using assms
proof (induction n)
  case 0
  show ?case by (auto intro!: nth_equalityI)
next
  case (Suc n)
  let ?r = "map (\<lambda>i. if a * H \<le> i \<and> i < a * H + n then discount ac b (regs ! i + r ! i) else r ! i)
              [0..<length r]"
  let ?s = "map (\<lambda>p. if p < n then s ! p + max 0 (discount ac b (regs ! (a * H + p) + r ! (a * H + p)))
                      else s ! p) [0..<length s]"
  have IH: "fold (regret_step H regs ac b a) [0..<n] (r, s) = (?r, ?s)"
    using Suc by simp
  have i1: "a * H + n < length ?r" and i2: "n < length ?s" using Suc.prems by simp_all
  have "fold (regret_step H regs ac b a) [0..<Suc n] (r, s) = regret_step H regs ac b a n (?r, ?s)"
    by (simp add: IH)
  also have "\<dots> = (?r[a * H + n := discount ac b (regs ! (a * H + n) + ?r ! (a * H + n))],
            ?s[n := ?s ! n + max 0 (discount ac b (regs ! (a * H + n) + ?r ! (a * H + n)))])"
    by (rule regret_step_eq[OF i1 i2])
  also have "\<dots> = (map (\<lambda>i. if a * H \<le> i \<and> i < a * H + Suc n then discount ac b (regs ! i + r ! i) else r ! i)
              [0..<length r],
            map (\<lambda>p. if p < Suc n then s ! p + max 0 (discount ac b (regs ! (a * H + p) + r ! (a * H + p)))
                      else s ! p) [0..<length s])"
    using Suc.prems
    by (auto intro!: nth_equalityI simp: nth_list_update less_Suc_eq)
  finally show ?case .
qed

lemma regret_outer:
  assumes "m * H \<le> length r" "H \<le> length s"
  shows "fold (\<lambda>a. fold (regret_step H regs ac b a) [0..<H]) [0..<m] (r, s) =
           (map (\<lambda>i. if i < m * H then discount ac b (regs ! i + r ! i) else r ! i) [0..<length r],
            map (\<lambda>p. if p < H
                      then s ! p + (\<Sum>a<m. max 0 (discount ac b (regs ! (a * H + p) + r ! (a * H + p))))
                      else s ! p) [0..<length s])"
  using assms
proof (induction m)
  case 0
  show ?case by (auto intro!: nth_equalityI)
next
  case (Suc m)
  let ?r = "map (\<lambda>i. if i < m * H then discount ac b (regs ! i + r ! i) else r ! i) [0..<length r]"
  let ?s = "map (\<lambda>p. if p < H
                      then s ! p + (\<Sum>a<m. max 0 (discount ac b (regs ! (a * H + p) + r ! (a * H + p))))
                      else s ! p) [0..<length s]"
  have IH: "fold (\<lambda>a. fold (regret_step H regs ac b a) [0..<H]) [0..<m] (r, s) = (?r, ?s)"
    using Suc by simp
  have l1: "m * H + H \<le> length ?r" and l2: "H \<le> length ?s" using Suc.prems by simp_all
  have "fold (\<lambda>a. fold (regret_step H regs ac b a) [0..<H]) [0..<Suc m] (r, s) =
          fold (regret_step H regs ac b m) [0..<H] (?r, ?s)"
    by (simp add: IH)
  also note regret_inner[OF l1 l2]
  also have "(map (\<lambda>i. if m * H \<le> i \<and> i < m * H + H then discount ac b (regs ! i + ?r ! i) else ?r ! i)
              [0..<length ?r],
            map (\<lambda>p. if p < H then ?s ! p + max 0 (discount ac b (regs ! (m * H + p) + ?r ! (m * H + p)))
                      else ?s ! p) [0..<length ?s]) =
     (map (\<lambda>i. if i < Suc m * H then discount ac b (regs ! i + r ! i) else r ! i) [0..<length r],
            map (\<lambda>p. if p < H
                      then s ! p + (\<Sum>a<Suc m. max 0 (discount ac b (regs ! (a * H + p) + r ! (a * H + p))))
                      else s ! p) [0..<length s])"
    using Suc.prems
    by (auto intro!: nth_equalityI)
  finally show ?case .
qed


lemma fold_row:
  assumes "a * H + n \<le> length xs" "n \<le> H"
    and step: "\<And>p ys. p < H \<Longrightarrow> a * H + p < length ys \<Longrightarrow>
                 step p ys = ys[a * H + p := g (a * H + p) (ys ! (a * H + p))]"
  shows "fold step [0..<n] xs =
           map (\<lambda>i. if a * H \<le> i \<and> i < a * H + n then g i (xs ! i) else xs ! i) [0..<length xs]"
  using assms(1,2)
proof (induction n)
  case 0
  show ?case by (auto intro!: nth_equalityI)
next
  case (Suc n)
  let ?xs = "map (\<lambda>i. if a * H \<le> i \<and> i < a * H + n then g i (xs ! i) else xs ! i) [0..<length xs]"
  have IH: "fold step [0..<n] xs = ?xs" using Suc by simp
  have "fold step [0..<Suc n] xs = step n ?xs" by (simp add: IH)
  also have "\<dots> = ?xs[a * H + n := g (a * H + n) (?xs ! (a * H + n))]"
    using Suc.prems by (intro step) simp_all
  also have "\<dots> = map (\<lambda>i. if a * H \<le> i \<and> i < a * H + Suc n then g i (xs ! i) else xs ! i) [0..<length xs]"
    using Suc.prems by (auto intro!: nth_equalityI simp: nth_list_update less_Suc_eq)
  finally show ?case .
qed

lemma fold_rows:
  assumes "m * H \<le> length xs"
    and step: "\<And>a p ys. p < H \<Longrightarrow> a * H + p < length ys \<Longrightarrow>
                 step a p ys = ys[a * H + p := g (a * H + p) (ys ! (a * H + p))]"
  shows "fold (\<lambda>a. fold (step a) [0..<H]) [0..<m] xs =
           map (\<lambda>i. if i < m * H then g i (xs ! i) else xs ! i) [0..<length xs]"
  using assms(1)
proof (induction m)
  case 0
  show ?case by (auto intro!: nth_equalityI)
next
  case (Suc m)
  let ?xs = "map (\<lambda>i. if i < m * H then g i (xs ! i) else xs ! i) [0..<length xs]"
  have IH: "fold (\<lambda>a. fold (step a) [0..<H]) [0..<m] xs = ?xs" using Suc by simp
  have l: "m * H + H \<le> length ?xs" using Suc.prems by simp
  have "fold (\<lambda>a. fold (step a) [0..<H]) [0..<Suc m] xs = fold (step m) [0..<H] ?xs"
    by (simp add: IH)
  also have "\<dots> = map (\<lambda>i. if m * H \<le> i \<and> i < m * H + H then g i (?xs ! i) else ?xs ! i)
                      [0..<length ?xs]"
    by (rule fold_row[OF l order_refl]) (rule step)
  also have "\<dots> = map (\<lambda>i. if i < Suc m * H then g i (xs ! i) else xs ! i) [0..<length xs]"
    using Suc.prems by (auto intro!: nth_equalityI)
  finally show ?case .
qed

lemma fold_cum_step:
  assumes "A * H \<le> length cum"
  shows "fold (\<lambda>a. fold (cum_step H th cs coef a) [0..<H]) [0..<A] cum =
           map (\<lambda>i. if i < A * H then cum ! i * th + cs ! i * coef else cum ! i) [0..<length cum]"
  by (rule fold_rows[OF assms, where g = "\<lambda>i v. v * th + cs ! i * coef"])
     (simp add: cum_step_def Let_def)

lemma getcurrentStrategyNoCache_nth:
  assumes "r_plus_sum tr \<noteq> []" "a < action_number tr" "h < card_number tr"
  shows "getcurrentStrategyNoCache tr ! (a * card_number tr + h) =
           (if r_plus_sum tr ! h \<noteq> 0
            then max 0 (r_plus tr ! (a * card_number tr + h)) / r_plus_sum tr ! h
            else 1 / real (action_number tr))"
proof -
  let ?A = "action_number tr" and ?H = "card_number tr"
  let ?g = "\<lambda>i (v::real). if r_plus_sum tr ! (i mod ?H) \<noteq> 0
            then max 0 (r_plus tr ! i) / r_plus_sum tr ! (i mod ?H)
            else 1 / real ?A"
  have idx: "a * ?H + h < ?A * ?H"
  proof -
    have "a * ?H + h < a * ?H + ?H" using assms(3) by simp
    also have "\<dots> = Suc a * ?H" by simp
    also have "\<dots> \<le> ?A * ?H" using assms(2) by (intro mult_le_mono1) simp
    finally show ?thesis .
  qed
  have "getcurrentStrategyNoCache tr =
          map (\<lambda>i. if i < ?A * ?H then ?g i (replicate (?A * ?H) 0 ! i) else replicate (?A * ?H) 0 ! i)
            [0..<length (replicate (?A * ?H) (0::real))]"
    unfolding getcurrentStrategyNoCache_def using assms(1)
    by (simp only: if_False, intro fold_rows[where g = ?g]) (simp_all add: Let_def)
  then show ?thesis using idx assms(3) by simp
qed

lemma updateRegrets_unfold:
  assumes "length (r_plus tr) = action_number tr * card_number tr"
      and "length (r_plus_sum tr) = card_number tr"
  shows "r_plus (updateRegrets tr regrets n rp) =
           map (\<lambda>i. discount (alpha_coef_of (alpha tr) n) (beta tr) (regrets ! i + r_plus tr ! i))
             [0..<action_number tr * card_number tr]"
    and "r_plus_sum (updateRegrets tr regrets n rp) =
           map (\<lambda>p. \<Sum>a<action_number tr. max 0 (discount (alpha_coef_of (alpha tr) n) (beta tr)
                   (regrets ! (a * card_number tr + p) + r_plus tr ! (a * card_number tr + p))))
             [0..<card_number tr]"
    and "action_number (updateRegrets tr regrets n rp) = action_number tr"
    and "card_number (updateRegrets tr regrets n rp) = card_number tr"
    and "alpha (updateRegrets tr regrets n rp) = alpha tr"
    and "beta (updateRegrets tr regrets n rp) = beta tr"
    and "gamma (updateRegrets tr regrets n rp) = gamma tr"
    and "theta (updateRegrets tr regrets n rp) = theta tr"
proof -
  let ?A = "action_number tr" and ?H = "card_number tr"
  let ?ac = "alpha_coef_of (alpha tr) n"
  have l1: "?A * ?H \<le> length (r_plus tr)" using assms(1) by simp
  have l2: "?H \<le> length (replicate ?H (0::real))" by simp
  note st = regret_outer[OF l1 l2, of regrets ?ac "beta tr"]
  show "r_plus (updateRegrets tr regrets n rp) =
           map (\<lambda>i. discount ?ac (beta tr) (regrets ! i + r_plus tr ! i)) [0..<?A * ?H]"
    unfolding updateRegrets_def Let_def pow_def alpha_coef_of_def[symmetric]
    by (simp add: st assms)
  show "r_plus_sum (updateRegrets tr regrets n rp) =
           map (\<lambda>p. \<Sum>a<?A. max 0 (discount ?ac (beta tr)
                   (regrets ! (a * ?H + p) + r_plus tr ! (a * ?H + p)))) [0..<?H]"
    unfolding updateRegrets_def Let_def pow_def alpha_coef_of_def[symmetric]
    by (simp add: st assms)
qed (simp_all add: updateRegrets_def Let_def)


lemma index_in_range: "a < A \<Longrightarrow> h < H \<Longrightarrow> a * H + h < A * (H::nat)"
proof -
  assume a: "a < A" and h: "h < H"
  have "a * H + h < a * H + H" using h by simp
  also have "\<dots> = Suc a * H" by simp
  also have "\<dots> \<le> A * H" using a by (intro mult_le_mono1) simp
  finally show ?thesis .
qed

lemma getcurrentStrategyNoCache_cum_irrelevant:
  "getcurrentStrategyNoCache (tr\<lparr>cum_r_plus := c\<rparr>) = getcurrentStrategyNoCache tr"
  by (simp add: getcurrentStrategyNoCache_def Let_def cong: if_cong)

lemma updateRegrets_cum:
  assumes "length (cum_r_plus tr) = action_number tr * card_number tr"
  shows "cum_r_plus (updateRegrets tr regrets n rp) =
           map (\<lambda>i. cum_r_plus tr ! i * theta tr +
                     getcurrentStrategyNoCache (updateRegrets tr regrets n rp) ! i *
                       ((real_of_int n / real_of_int (n + 1)) powr gamma tr))
             [0..<action_number tr * card_number tr]"
proof -
  let ?A = "action_number tr" and ?H = "card_number tr"
  have l: "?A * ?H \<le> length (cum_r_plus tr)" using assms by simp
  obtain tr1 where tr1: "updateRegrets tr regrets n rp =
      tr1\<lparr>cum_r_plus := fold (\<lambda>a. fold (cum_step ?H (theta tr) (getcurrentStrategyNoCache tr1)
                ((real_of_int n / real_of_int (n + 1)) powr gamma tr) a) [0..<?H]) [0..<?A] (cum_r_plus tr)\<rparr>"
    by (simp add: updateRegrets_def Let_def pow_def)
  have cs: "getcurrentStrategyNoCache tr1 = getcurrentStrategyNoCache (updateRegrets tr regrets n rp)"
    using arg_cong[OF tr1, of getcurrentStrategyNoCache]
    by (simp add: getcurrentStrategyNoCache_cum_irrelevant)
  have "cum_r_plus (updateRegrets tr regrets n rp) =
          fold (\<lambda>a. fold (cum_step ?H (theta tr) (getcurrentStrategyNoCache tr1)
                ((real_of_int n / real_of_int (n + 1)) powr gamma tr) a) [0..<?H]) [0..<?A] (cum_r_plus tr)"
    by (subst tr1) simp
  also note fold_cum_step[OF l]
  finally show ?thesis using assms by (simp add: cs)
qed

lemma alpha_coef_of_nonneg: "0 \<le> alpha_coef_of al n"
  by (simp add: alpha_coef_of_def)

lemma constant_regret_run_inv:
  assumes tr0_def: "tr0 = new_DiscountedCfrTrainable A H al b g th"
  shows "action_number (constant_regret_run tr0 t) = A \<and>
         card_number (constant_regret_run tr0 t) = H \<and>
         alpha (constant_regret_run tr0 t) = al \<and>
         beta (constant_regret_run tr0 t) = b \<and>
         length (r_plus (constant_regret_run tr0 t)) = A * H \<and>
         length (r_plus_sum (constant_regret_run tr0 t)) = H \<and>
         (\<forall>i < A * H. r_plus (constant_regret_run tr0 t) ! i =
            (\<Sum>k = 1..t. \<Prod>j = k..t. alpha_coef_of al (int j)))"
proof (induction t)
  case 0
  show ?case by (simp add: tr0_def new_DiscountedCfrTrainable_def)
next
  case (Suc t)
  let ?tr = "constant_regret_run tr0 t"
  let ?S = "\<Sum>k = 1..t. \<Prod>j = k..t. alpha_coef_of al (int j)"
  let ?c = "alpha_coef_of al (int (Suc t))"
  have A0: "action_number tr0 = A" "card_number tr0 = H"
    by (simp_all add: tr0_def new_DiscountedCfrTrainable_def)
  have l1: "length (r_plus ?tr) = action_number ?tr * card_number ?tr"
    and l2: "length (r_plus_sum ?tr) = card_number ?tr" using Suc by simp_all
  note u = updateRegrets_unfold[OF l1 l2]
  have Spos: "0 \<le> ?S"
    by (intro sum_nonneg prod_nonneg) (simp add: alpha_coef_of_nonneg)
  have step: "(\<Sum>k = 1..Suc t. \<Prod>j = k..Suc t. alpha_coef_of al (int j)) = (1 + ?S) * ?c"
  proof -
    have "(\<Sum>k = 1..Suc t. \<Prod>j = k..Suc t. alpha_coef_of al (int j)) =
            (\<Sum>k = 1..t. \<Prod>j = k..Suc t. alpha_coef_of al (int j)) + ?c"
      by simp
    also have "(\<Sum>k = 1..t. \<Prod>j = k..Suc t. alpha_coef_of al (int j)) =
            (\<Sum>k = 1..t. (\<Prod>j = k..t. alpha_coef_of al (int j)) * ?c)"
      by (intro sum.cong refl) (simp add: prod.nat_ivl_Suc' mult.commute)
    also have "\<dots> = ?S * ?c" by (simp add: sum_distrib_right)
    finally show ?thesis by (simp add: algebra_simps)
  qed
  have "r_plus (constant_regret_run tr0 (Suc t)) ! i =
          (\<Sum>k = 1..Suc t. \<Prod>j = k..Suc t. alpha_coef_of al (int j))" if i: "i < A * H" for i
  proof -
    have "r_plus (constant_regret_run tr0 (Suc t)) ! i = discount ?c b (1 + ?S)"
      using i Suc by (simp add: u A0)
    also have "\<dots> = (1 + ?S) * ?c" using Spos by (simp add: discount_def)
    also note step[symmetric]
    finally show ?thesis .
  qed
  then show ?case using Suc by (simp add: u A0)
qed

text \<open>
  C1, as amended. For a call \<open>updateRegrets(regrets, t + 1)\<close> on a trainable whose
  tables have the sizes the constructor gave them: the new \<open>r_plus[a,h]\<close> is the sum
  \<open>regrets[a,h] + r_plus[a,h]\<close> multiplied by
  \<open>(t+1) powr \<alpha> / (1 + (t+1) powr \<alpha>)\<close> when the sum is positive and by \<open>\<beta>\<close>
  otherwise (the base of the power is the iteration number, the exponent is \<open>\<alpha>\<close>),
  and \<open>r_plus_sum[h]\<close> is the sum over the actions of \<open>max(0, new r_plus[a,h])\<close>.
  Driven from a fresh trainable with the constant regret 1 under \<open>\<alpha> = 1.5\<close>,
  \<open>\<beta> = 0\<close>, every entry of \<open>r_plus\<close> after \<open>t\<close> calls is
  \<open>\<Sum>k=1..t. \<Prod>j=k..t. j powr 1.5 / (1 + j powr 1.5)\<close>.
\<close>

theorem updateRegrets_r_plus_discount:
  "(\<forall>tr regrets t rp a h.
      length (r_plus tr) = action_number tr * card_number tr \<and>
      length (r_plus_sum tr) = card_number tr \<and>
      length regrets = action_number tr * card_number tr \<and>
      a < action_number tr \<and> h < card_number tr \<longrightarrow>
      (let tr' = updateRegrets tr regrets (int t + 1) rp;
           index = a * card_number tr + h;
           s = regrets ! index + r_plus tr ! index;
           c = (real t + 1) powr alpha tr / (1 + (real t + 1) powr alpha tr)
       in r_plus tr' ! index = (if s > 0 then s * c else s * beta tr) \<and>
          r_plus_sum tr' ! h = (\<Sum>a' < action_number tr. max 0 (r_plus tr' ! (a' * card_number tr + h))))) \<and>
   (\<forall>A H g th t i. i < A * H \<longrightarrow>
      r_plus (constant_regret_run (new_DiscountedCfrTrainable A H (3/2) 0 g th) t) ! i =
        (\<Sum>k = 1..t. \<Prod>j = k..t. real j powr (3/2) / (1 + real j powr (3/2))))"
proof (intro conjI allI impI)
  fix tr :: DiscountedCfrTrainable and regrets :: "real list" and t :: nat
    and rp :: "real list" and a h :: nat
  assume H: "length (r_plus tr) = action_number tr * card_number tr \<and>
      length (r_plus_sum tr) = card_number tr \<and>
      length regrets = action_number tr * card_number tr \<and>
      a < action_number tr \<and> h < card_number tr"
  then have l1: "length (r_plus tr) = action_number tr * card_number tr"
    and l2: "length (r_plus_sum tr) = card_number tr"
    and a: "a < action_number tr" and h: "h < card_number tr" by simp_all
  note u = updateRegrets_unfold(1,2)[OF l1 l2]
  have idx: "a' * card_number tr + h < action_number tr * card_number tr"
    if "a' < action_number tr" for a'
    using that h by (rule index_in_range)
  have c: "alpha_coef_of (alpha tr) (int t + 1) =
             (real t + 1) powr alpha tr / (1 + (real t + 1) powr alpha tr)"
    by (simp add: alpha_coef_of_def)
  have r: "r_plus (updateRegrets tr regrets (int t + 1) rp) ! (a' * card_number tr + h) =
        discount (alpha_coef_of (alpha tr) (int t + 1)) (beta tr)
          (regrets ! (a' * card_number tr + h) + r_plus tr ! (a' * card_number tr + h))"
    if "a' < action_number tr" for a'
    using idx[OF that] by (simp add: u)
  have s: "r_plus_sum (updateRegrets tr regrets (int t + 1) rp) ! h =
        (\<Sum>a' < action_number tr. max 0 (r_plus (updateRegrets tr regrets (int t + 1) rp) ! (a' * card_number tr + h)))"
    using h by (simp add: u(2) r)
  show "let tr' = updateRegrets tr regrets (int t + 1) rp;
           index = a * card_number tr + h;
           s = regrets ! index + r_plus tr ! index;
           c = (real t + 1) powr alpha tr / (1 + (real t + 1) powr alpha tr)
       in r_plus tr' ! index = (if s > 0 then s * c else s * beta tr) \<and>
          r_plus_sum tr' ! h = (\<Sum>a' < action_number tr. max 0 (r_plus tr' ! (a' * card_number tr + h)))"
    unfolding Let_def
  proof (intro conjI)
    show "r_plus (updateRegrets tr regrets (int t + 1) rp) ! (a * card_number tr + h) =
        (if 0 < regrets ! (a * card_number tr + h) + r_plus tr ! (a * card_number tr + h)
         then (regrets ! (a * card_number tr + h) + r_plus tr ! (a * card_number tr + h)) *
              ((real t + 1) powr alpha tr / (1 + (real t + 1) powr alpha tr))
         else (regrets ! (a * card_number tr + h) + r_plus tr ! (a * card_number tr + h)) * beta tr)"
      unfolding r[OF a] discount_def c by (rule refl)
    show "r_plus_sum (updateRegrets tr regrets (int t + 1) rp) ! h =
        (\<Sum>a' < action_number tr. max 0 (r_plus (updateRegrets tr regrets (int t + 1) rp) ! (a' * card_number tr + h)))"
      by (rule s)
  qed
next
  fix A H g th t i
  assume i: "i < A * (H::nat)"
  have "r_plus (constant_regret_run (new_DiscountedCfrTrainable A H (3/2) 0 g th) t) ! i =
      (\<Sum>k = 1..t. \<Prod>j = k..t. alpha_coef_of (3/2) (int j))"
    using constant_regret_run_inv[OF refl, of A H "3/2" 0 g th t] i by simp
  then show "r_plus (constant_regret_run (new_DiscountedCfrTrainable A H (3/2) 0 g th) t) ! i =
        (\<Sum>k = 1..t. \<Prod>j = k..t. real j powr (3/2) / (1 + real j powr (3/2)))"
    by (simp add: alpha_coef_of_def)
qed

theorem updateRegrets_r_plus_discount_witness:
  "length (r_plus (new_DiscountedCfrTrainable 1 1 (3/2) 0 2 1)) = 1 * 1 \<and>
   length (r_plus_sum (new_DiscountedCfrTrainable 1 1 (3/2) 0 2 1)) = 1 \<and>
   length [1::real] = 1 * 1 \<and> (0::nat) < 1 \<and>
   r_plus (updateRegrets (new_DiscountedCfrTrainable 1 1 (3/2) 0 2 1) [1] 1 []) ! 0 = 1 / 2 \<and>
   r_plus_sum (updateRegrets (new_DiscountedCfrTrainable 1 1 (3/2) 0 2 1) [1] 1 []) ! 0 = 1 / 2 \<and>
   r_plus (constant_regret_run (new_DiscountedCfrTrainable 1 1 (3/2) 0 2 1) 1) ! 0 = 1 / 2"
proof -
  let ?tr = "new_DiscountedCfrTrainable 1 1 (3/2) 0 2 1"
  have f: "action_number ?tr = 1" "card_number ?tr = 1" "alpha ?tr = 3/2" "beta ?tr = 0"
    "r_plus ?tr = [0]" "r_plus_sum ?tr = [0]"
    by (simp_all add: new_DiscountedCfrTrainable_def)
  have hyp: "length (r_plus ?tr) = action_number ?tr * card_number ?tr \<and>
      length (r_plus_sum ?tr) = card_number ?tr \<and>
      length [1::real] = action_number ?tr * card_number ?tr \<and>
      0 < action_number ?tr \<and> 0 < card_number ?tr"
    by (simp add: new_DiscountedCfrTrainable_def)
  have 1: "let tr' = updateRegrets ?tr [1] (int 0 + 1) [];
           index = 0 * card_number ?tr + 0;
           s = [1] ! index + r_plus ?tr ! index;
           c = (real 0 + 1) powr alpha ?tr / (1 + (real 0 + 1) powr alpha ?tr)
       in r_plus tr' ! index = (if s > 0 then s * c else s * beta ?tr) \<and>
          r_plus_sum tr' ! 0 = (\<Sum>a' < action_number ?tr. max 0 (r_plus tr' ! (a' * card_number ?tr + 0)))"
    by (rule updateRegrets_r_plus_discount[THEN conjunct1, rule_format, OF hyp])
  have 2: "r_plus (constant_regret_run ?tr 1) ! 0 =
        (\<Sum>k = 1..1. \<Prod>j = k..1. real j powr (3/2) / (1 + real j powr (3/2)))"
    by (rule updateRegrets_r_plus_discount[THEN conjunct2, rule_format]) simp
  show ?thesis using 1 2 by (simp add: new_DiscountedCfrTrainable_def Let_def)
qed

text \<open>
  C1 as stated fails. With \<open>\<alpha> = 1.5\<close> and the call \<open>updateRegrets([1], 0 + 1)\<close>
  on a fresh one-entry trainable the code stores \<open>1/2\<close>, which is
  \<open>1 powr 1.5 / (1 + 1 powr 1.5)\<close>, where the coefficient
  \<open>\<alpha> ^ (t+1) / (1 + \<alpha> ^ (t+1))\<close> of the specification gives \<open>3/5\<close>. After two calls with
  constant regret 1 the entry differs from the plain sum
  \<open>1 powr 1.5 / (1 + 1 powr 1.5) + 2 powr 1.5 / (1 + 2 powr 1.5)\<close>.
\<close>

theorem updateRegrets_alpha_power_counterexample:
  "r_plus (updateRegrets (new_DiscountedCfrTrainable 1 1 (3/2) 0 2 1) [1] (0 + 1) []) ! 0 = 1 / 2 \<and>
   (0 + 1) * ((3/2) ^ (0 + 1) / (1 + (3/2) ^ (0 + 1))) \<noteq> (1 / 2 :: real) \<and>
   r_plus (constant_regret_run (new_DiscountedCfrTrainable 1 1 (3/2) 0 2 1) 2) ! 0 \<noteq>
     1 powr (3/2) / (1 + 1 powr (3/2)) + 2 powr (3/2) / (1 + 2 powr (3/2))"
proof -
  let ?tr = "new_DiscountedCfrTrainable 1 1 (3/2) 0 2 1"
  have a: "r_plus (updateRegrets ?tr [1] (0 + 1) []) ! 0 = 1 / 2"
    by (simp add: updateRegrets_def new_DiscountedCfrTrainable_def Let_def regret_step_def pow_def)
  have b: "(0 + 1) * ((3/2) ^ (0 + 1) / (1 + (3/2) ^ (0 + 1))) \<noteq> (1 / 2 :: real)" by simp
  define x :: real where "x = 2 powr (3/2)"
  have x: "0 < x" by (simp add: x_def)
  have "r_plus (constant_regret_run ?tr 2) ! 0 =
      (\<Sum>k = 1..2. \<Prod>j = k..2. alpha_coef_of (3/2) (int j))"
    using constant_regret_run_inv[OF refl, of 1 1 "3/2" 0 2 1 2] by simp
  also have "{1..2::nat} = {1, 2}" by auto
  also have "(\<Sum>k \<in> {1, 2::nat}. \<Prod>j = k..2. alpha_coef_of (3/2) (int j)) =
      (\<Prod>j \<in> {1, 2::nat}. alpha_coef_of (3/2) (int j)) + alpha_coef_of (3/2) 2"
    using \<open>{1..2::nat} = {1, 2}\<close> by simp
  also have "\<dots> = (1 / 2) * (x / (1 + x)) + x / (1 + x)"
    by (simp add: alpha_coef_of_def x_def)
  finally have r2: "r_plus (constant_regret_run ?tr 2) ! 0 = (1 / 2) * (x / (1 + x)) + x / (1 + x)" .
  have "x / (1 + x) \<noteq> 1" using x by (simp add: field_simps)
  then have "(1 / 2) * (x / (1 + x)) + x / (1 + x) \<noteq> 1 / 2 + x / (1 + x)"
    by simp
  then have c: "r_plus (constant_regret_run ?tr 2) ! 0 \<noteq>
     1 powr (3/2) / (1 + 1 powr (3/2)) + 2 powr (3/2) / (1 + 2 powr (3/2))"
    unfolding r2 by (simp add: x_def)
  from a b c show ?thesis by blast
qed

section \<open>The accumulated strategy\<close>

text \<open>
  C5, as amended. For a call \<open>updateRegrets(regrets, t + 1)\<close> on a trainable whose
  tables have the sizes the constructor gave them, each \<open>cum_r_plus[a,h]\<close> is replaced
  by \<open>cum_r_plus[a,h] * \<theta> + \<sigma>(a|h) * strategy_coef\<close>, where \<open>\<sigma>\<close> is the current
  strategy derived from the updated \<open>r_plus\<close> and \<open>r_plus_sum\<close>, and
  \<open>strategy_coef = ((t+1) / (t+2)) powr \<gamma>\<close>: the ratio is taken from the iteration
  number passed to the call, \<open>iteration_number / (iteration_number + 1)\<close>.
\<close>

theorem updateRegrets_cum_r_plus_update:
  assumes "length (r_plus tr) = action_number tr * card_number tr"
      and "length (r_plus_sum tr) = card_number tr"
      and "length (cum_r_plus tr) = action_number tr * card_number tr"
      and "length regrets = action_number tr * card_number tr"
      and "a < action_number tr" and "h < card_number tr"
  shows "let tr' = updateRegrets tr regrets (int t + 1) rp;
             index = a * card_number tr + h;
             sigma = (if r_plus_sum tr' ! h \<noteq> 0
                      then max 0 (r_plus tr' ! index) / r_plus_sum tr' ! h
                      else 1 / real (action_number tr))
         in getcurrentStrategyNoCache tr' ! index = sigma \<and>
            cum_r_plus tr' ! index =
              cum_r_plus tr ! index * theta tr +
              sigma * ((real t + 1) / (real t + 2)) powr gamma tr"
proof -
  let ?tr' = "updateRegrets tr regrets (int t + 1) rp"
  let ?i = "a * card_number tr + h"
  note u = updateRegrets_unfold[OF assms(1,2), of regrets "int t + 1" rp]
  have ne: "r_plus_sum ?tr' \<noteq> []" using assms(6) by (simp add: u(2))
  have a': "a < action_number ?tr'" and h': "h < card_number ?tr'"
    using assms(5,6) by (simp_all add: u)
  have sig: "getcurrentStrategyNoCache ?tr' ! ?i =
      (if r_plus_sum ?tr' ! h \<noteq> 0
       then max 0 (r_plus ?tr' ! ?i) / r_plus_sum ?tr' ! h
       else 1 / real (action_number tr))"
    using getcurrentStrategyNoCache_nth[OF ne a' h'] by (simp only: u(3,4))
  have idx: "?i < action_number tr * card_number tr"
    using assms(5,6) by (rule index_in_range)
  have coef: "real_of_int (int t + 1) / real_of_int (int t + 1 + 1) = (real t + 1) / (real t + 2)"
    by simp
  have "cum_r_plus ?tr' ! ?i =
      cum_r_plus tr ! ?i * theta tr +
      getcurrentStrategyNoCache ?tr' ! ?i *
        ((real_of_int (int t + 1) / real_of_int (int t + 1 + 1)) powr gamma tr)"
    using idx by (simp add: updateRegrets_cum[OF assms(3)])
  then have cum: "cum_r_plus ?tr' ! ?i =
      cum_r_plus tr ! ?i * theta tr +
      getcurrentStrategyNoCache ?tr' ! ?i * ((real t + 1) / (real t + 2)) powr gamma tr"
    unfolding coef .
  show ?thesis unfolding Let_def using sig cum by simp
qed

lemma fresh_update_values:
  "r_plus (updateRegrets (new_DiscountedCfrTrainable 1 1 (3/2) 0 2 1) [1] 1 []) = [1/2]"
  "r_plus_sum (updateRegrets (new_DiscountedCfrTrainable 1 1 (3/2) 0 2 1) [1] 1 []) = [1/2]"
  "cum_r_plus (updateRegrets (new_DiscountedCfrTrainable 1 1 (3/2) 0 2 1) [1] 1 []) = [1/4]"
  by (simp_all add: updateRegrets_def new_DiscountedCfrTrainable_def Let_def regret_step_def
      cum_step_def getcurrentStrategyNoCache_def pow_def power2_eq_square)


theorem updateRegrets_cum_r_plus_update_witness:
  "length (r_plus (new_DiscountedCfrTrainable 1 1 (3/2) 0 2 1)) = 1 * 1 \<and>
   length (r_plus_sum (new_DiscountedCfrTrainable 1 1 (3/2) 0 2 1)) = 1 \<and>
   length (cum_r_plus (new_DiscountedCfrTrainable 1 1 (3/2) 0 2 1)) = 1 * 1 \<and>
   length [1::real] = 1 * 1 \<and> (0::nat) < 1 \<and>
   getcurrentStrategyNoCache (updateRegrets (new_DiscountedCfrTrainable 1 1 (3/2) 0 2 1) [1] 1 []) ! 0 = 1 \<and>
   cum_r_plus (updateRegrets (new_DiscountedCfrTrainable 1 1 (3/2) 0 2 1) [1] 1 []) ! 0 = 1 / 4"
proof -
  let ?tr = "new_DiscountedCfrTrainable 1 1 (3/2) 0 2 1"
  have f: "action_number ?tr = 1" "card_number ?tr = 1" "gamma ?tr = 2" "theta ?tr = 1"
    "cum_r_plus ?tr = [0]"
    by (simp_all add: new_DiscountedCfrTrainable_def)
  have h1: "length (r_plus ?tr) = action_number ?tr * card_number ?tr"
    and h2: "length (r_plus_sum ?tr) = card_number ?tr"
    and h3: "length (cum_r_plus ?tr) = action_number ?tr * card_number ?tr"
    and h4: "length [1::real] = action_number ?tr * card_number ?tr"
    and h5: "0 < action_number ?tr" and h6: "0 < card_number ?tr"
    by (simp_all add: new_DiscountedCfrTrainable_def)
  note t = updateRegrets_cum_r_plus_update[OF h1 h2 h3 h4 h5 h6, of 0 "[]"]
  have "getcurrentStrategyNoCache (updateRegrets ?tr [1] 1 []) ! 0 = 1 \<and>
        cum_r_plus (updateRegrets ?tr [1] 1 []) ! 0 = 1 / 4"
    using t unfolding Let_def f by (simp add: fresh_update_values power2_eq_square del: One_nat_def)
  then show ?thesis by (simp add: new_DiscountedCfrTrainable_def)
qed

text \<open>
  C5 as stated fails. The call \<open>updateRegrets([1], 0 + 1)\<close> on a fresh one-entry
  trainable with \<open>\<gamma> = 2\<close>, \<open>\<theta> = 1\<close> stores \<open>cum_r_plus = 1/4 = 0 * 1 + 1 * (1/2)\<^sup>2\<close>;
  the coefficient \<open>(t / (t+1)) powr \<gamma>\<close> at \<open>t = 0\<close> would leave \<open>0\<close>.
\<close>

theorem updateRegrets_strategy_coef_counterexample:
  "cum_r_plus (updateRegrets (new_DiscountedCfrTrainable 1 1 (3/2) 0 2 1) [1] (0 + 1) []) ! 0 = 1 / 4 \<and>
   getcurrentStrategyNoCache
     (updateRegrets (new_DiscountedCfrTrainable 1 1 (3/2) 0 2 1) [1] (0 + 1) []) ! 0 = 1 \<and>
   cum_r_plus (new_DiscountedCfrTrainable 1 1 (3/2) 0 2 1) ! 0 *
     theta (new_DiscountedCfrTrainable 1 1 (3/2) 0 2 1) +
     1 * (0 / (0 + 1)) powr gamma (new_DiscountedCfrTrainable 1 1 (3/2) 0 2 1) \<noteq> 1 / 4"
  by (simp add: updateRegrets_def new_DiscountedCfrTrainable_def Let_def regret_step_def
      cum_step_def getcurrentStrategyNoCache_def pow_def power2_eq_square)

section \<open>The isomorphism table\<close>

lemma long2board_example: "long2board (boardInts2long [42, 46, 50]) = [42, 46, 50]"
  by code_simp

lemma board_color_hash_example: "board_color_hash [42, 46, 50] = [0, 0, 7168, 0]"
  by code_simp

lemma iso_row_example: "iso_row [0, 0, 7168, 0] (replicate 4 0) = [0, -1, 0, -2]"
  by code_simp

lemma fold_keeps_row0:
  "fold (\<lambda>deal tbl. tbl[Suc deal := f deal tbl]) ds tbl ! 0 = tbl ! 0"
  by (induction ds arbitrary: tbl) simp_all

lemma color_iso_offset_init_row0: "color_iso_offset_init ! 0 = [0,0,0,0]"
  by (simp add: color_iso_offset_init_def numeral_eq_Suc)


lemma iso_row_inner:
  assumes "i < length row"
  shows "fold (\<lambda>j row. if P j then row[i := g j] else row) [0..<n] (row[i := 0]) =
           row[i := (if \<exists>j<n. P j then g (Max {j. j < n \<and> P j}) else (0::int))]"
proof (induction n)
  case 0
  show ?case by simp
next
  case (Suc n)
  let ?v = "\<lambda>n. if \<exists>j<n. P j then g (Max {j. j < n \<and> P j}) else (0::int)"
  have IH: "fold (\<lambda>j row. if P j then row[i := g j] else row) [0..<n] (row[i := 0]) = row[i := ?v n]"
    by (rule Suc)
  show ?case
  proof (cases "P n")
    case True
    have "Max {j. j < Suc n \<and> P j} = n"
      by (rule Max_eqI) (use True in \<open>auto simp: less_Suc_eq\<close>)
    moreover have "\<exists>j<Suc n. P j" using True by blast
    ultimately have v: "?v (Suc n) = g n" by simp
    have "fold (\<lambda>j row. if P j then row[i := g j] else row) [0..<Suc n] (row[i := 0]) =
            row[i := g n]"
      using True by (simp add: IH)
    then show ?thesis by (simp only: v)
  next
    case False
    then have e1: "{j. j < Suc n \<and> P j} = {j. j < n \<and> P j}" by (auto simp: less_Suc_eq)
    have e2: "(\<exists>j<Suc n. P j) \<longleftrightarrow> (\<exists>j<n. P j)" using False by (auto simp: less_Suc_eq)
    have v: "?v (Suc n) = ?v n" by (simp only: e1 e2)
    have "fold (\<lambda>j row. if P j then row[i := g j] else row) [0..<Suc n] (row[i := 0]) =
            row[i := ?v n]"
      using False by (simp add: IH)
    then show ?thesis by (simp only: v)
  qed
qed

lemma iso_row_last_equal_suit:
  assumes "length row = 4" "col < 4"
  shows "iso_row color_hash row ! col =
           (if \<exists>j<col. color_hash ! col = color_hash ! j
            then int (Max {j. j < col \<and> color_hash ! col = color_hash ! j}) - int col
            else 0)"
proof -
  let ?v = "\<lambda>i. if \<exists>j<i. color_hash ! i = color_hash ! j
            then int (Max {j. j < i \<and> color_hash ! i = color_hash ! j}) - int i
            else 0"
  have step: "fold (\<lambda>j row. if color_hash ! i = color_hash ! j then row[i := int j - int i] else row)
          [0..<i] (r[i := 0]) = r[i := ?v i]" if "i < length r" for i and r :: "int list"
    by (rule iso_row_inner[OF that, where P = "\<lambda>j. color_hash ! i = color_hash ! j"
          and g = "\<lambda>j. int j - int i"])
  have four: "[0..<4] = [0, 1, 2, 3::nat]" by (simp add: upt_rec)
  have "iso_row color_hash row = row[0 := ?v 0, 1 := ?v 1, 2 := ?v 2, 3 := ?v 3]"
    unfolding iso_row_def four using assms(1) by (simp only: fold_simps step length_list_update)
  then show ?thesis
    using assms by (auto simp: less_Suc_eq numeral_eq_Suc nth_list_update)
qed

text \<open>
  C7 at a monotone board. The board holds the cards 42, 46 and 50 (ranks 10, 11, 12 of
  suit 2), so suits 0, 1 and 3 have the same (empty) set of board ranks. The table
  after \<open>findGameSpecificIsomorphisms\<close> has row 0 equal to \<open>[0, -1, 0, -2]\<close>: the entry
  of suit 3 is \<open>1 - 3\<close>, pointing at suit 1, the last earlier suit with an equal hash,
  where the first such suit, suit 0, would give \<open>0 - 3 = -3\<close>.
\<close>

theorem findGameSpecificIsomorphisms_three_equal_suits:
  "color_iso_offset (findGameSpecificIsomorphisms
      \<lparr>ranges = [[], []],
       initial_board_long = boardInts2long [42, 46, 50],
       deck = map (\<lambda>i. \<lparr>card_int = i, card_number_in_deck = i\<rparr>) [0..<52],
       color_iso_offset = color_iso_offset_init,
       iteration_number = 1, print_interval = 1, warmup = 0, accuracy = 0,
       logfile = [], monteCarolAlg = NONE, distributing_task = False, enable_equity = False\<rparr>) ! 0 =
   [0, - 1, 0, - 2]"
  by (simp add: findGameSpecificIsomorphisms_def Let_def fold_keeps_row0 long2board_example board_color_hash_example
      color_iso_offset_init_row0 iso_row_example
      color_iso_offset_init_def)

section \<open>The driver loop\<close>

lemma no_stop_between_empty: "k \<le> i \<Longrightarrow> no_stop_between s e i k"
  by (auto simp: no_stop_between_def)

lemma no_stop_between_step:
  "i < k \<Longrightarrow> no_stop_between s e i k \<longleftrightarrow> \<not> stops_at s e i \<and> no_stop_between s e (i + 1) k"
  unfolding no_stop_between_def
proof (intro iffI conjI allI impI)
  fix j
  assume ik: "i < k" and h: "\<not> stops_at s e i \<and> (\<forall>j. i + 1 \<le> j \<and> j < k \<longrightarrow> \<not> stops_at s e j)"
    and j: "i \<le> j \<and> j < k"
  show "\<not> stops_at s e j"
  proof (cases "j = i")
    case True
    with h show ?thesis by simp
  next
    case False
    with j have "i + 1 \<le> j \<and> j < k" by simp
    with h show ?thesis by blast
  qed
qed auto

lemma train_loop_trace:
  assumes "print_interval s \<noteq> 0"
  shows "\<exists>tr. train_loop s e i trace = Some tr \<and>
          (\<forall>k p. Cfr k p \<in> set tr \<longleftrightarrow>
              Cfr k p \<in> set trace \<or>
              (i \<le> k \<and> k < iteration_number s \<and> p < 2 \<and> no_stop_between s e i k)) \<and>
          (\<forall>k. PrintExploitability (k + 1) \<in> set tr \<longleftrightarrow>
              PrintExploitability (k + 1) \<in> set trace \<or>
              (i \<le> k \<and> k < iteration_number s \<and> probes_at s k \<and> no_stop_between s e i k)) \<and>
          (\<forall>k. LogLine k \<in> set tr \<longleftrightarrow>
              LogLine k \<in> set trace \<or>
              (logfile s \<noteq> [] \<and> i \<le> k \<and> k < iteration_number s \<and> probes_at s k \<and>
               no_stop_between s e i k))"
  using assms
proof (induction s e i trace rule: train_loop.induct)
  case (1 s e i trace)
  show ?case
  proof (cases "i < iteration_number s")
    case False
    then have "train_loop s e i trace = Some trace"
      by (subst train_loop.simps) simp
    then show ?thesis using False by auto
  next
    case True
    let ?t1 = "trace @ [Cfr i 0, Cfr i 1]"
    let ?t2 = "?t1 @ [PrintExploitability (i + 1)]"
    let ?t3 = "if logfile s \<noteq> [] then ?t2 @ [LogLine i] else ?t2"
    have here: "no_stop_between s e i i" by (rule no_stop_between_empty) simp
    have later: "no_stop_between s e i k \<longleftrightarrow> \<not> stops_at s e i \<and> no_stop_between s e (i + 1) k"
      if "i < k" for k using that by (rule no_stop_between_step)
    have split: "i \<le> k \<longleftrightarrow> k = i \<or> i + 1 \<le> k" for k by auto
    have p2: "p < 2 \<longleftrightarrow> p = 0 \<or> p = 1" for p :: nat by auto
    show ?thesis
    proof (cases "probes_at s i")
      case pr: True
      show ?thesis
      proof (cases "e i \<le> accuracy s")
        case stop: True
        have st: "stops_at s e i" using pr stop by (simp add: stops_at_def)
        have r: "train_loop s e i trace = Some ?t3"
          using True pr stop 1(3) by (subst train_loop.simps) (simp add: probes_at_def Let_def)
        have none: "\<not> no_stop_between s e i k" if "i < k" for k
          using later[OF that] st by simp
        have c: "(i \<le> k \<and> k < iteration_number s \<and> Q \<and> no_stop_between s e i k) \<longleftrightarrow>
                 (k = i \<and> Q)" for k Q
          using True here none[of k] by (cases "k = i") auto
        show ?thesis
          unfolding r using pr by (auto simp: c p2)
      next
        case go: False
        have st: "\<not> stops_at s e i" using go by (simp add: stops_at_def)
        have r: "train_loop s e i trace = train_loop s e (i + 1) ?t3"
          using True pr go 1(3) by (subst train_loop.simps) (simp add: probes_at_def Let_def)
        have pr': "i smod print_interval s = 0 \<and> i \<noteq> 0 \<and> warmup s \<le> i"
          using pr by (simp add: probes_at_def)
        from 1(1)[OF True refl 1(3) pr' refl refl refl go 1(3)]
        obtain tr where tr: "train_loop s e (i + 1) ?t3 = Some tr"
          and C: "\<And>k p. Cfr k p \<in> set tr \<longleftrightarrow> Cfr k p \<in> set ?t3 \<or>
              (i + 1 \<le> k \<and> k < iteration_number s \<and> p < 2 \<and> no_stop_between s e (i + 1) k)"
          and P: "\<And>k. PrintExploitability (k + 1) \<in> set tr \<longleftrightarrow> PrintExploitability (k + 1) \<in> set ?t3 \<or>
              (i + 1 \<le> k \<and> k < iteration_number s \<and> probes_at s k \<and> no_stop_between s e (i + 1) k)"
          and L: "\<And>k. LogLine k \<in> set tr \<longleftrightarrow> LogLine k \<in> set ?t3 \<or>
              (logfile s \<noteq> [] \<and> i + 1 \<le> k \<and> k < iteration_number s \<and> probes_at s k \<and>
               no_stop_between s e (i + 1) k)"
          by blast
        have c: "(i \<le> k \<and> k < iteration_number s \<and> Q \<and> no_stop_between s e i k) \<longleftrightarrow>
                 (k = i \<and> Q) \<or> (i + 1 \<le> k \<and> k < iteration_number s \<and> Q \<and> no_stop_between s e (i + 1) k)"
          for k Q
          using True here later[of k] st by (cases "k = i") auto
        show ?thesis
          unfolding r tr using pr by (auto simp: C P L c p2)
      qed
    next
      case npr: False
      have st: "\<not> stops_at s e i" using npr by (simp add: stops_at_def)
      have npr': "\<not> (i smod print_interval s = 0 \<and> i \<noteq> 0 \<and> warmup s \<le> i)"
        using npr by (simp add: probes_at_def)
      have ilt: "i < iteration_number s" by (rule True)
      have r: "train_loop s e i trace = train_loop s e (i + 1) ?t1"
        by (subst train_loop.simps) (simp only: Let_def ilt 1(3) npr' if_True if_False)
      from 1(2)[OF True refl 1(3) npr' 1(3)]
      obtain tr where tr: "train_loop s e (i + 1) ?t1 = Some tr"
          and C: "\<And>k p. Cfr k p \<in> set tr \<longleftrightarrow> Cfr k p \<in> set ?t1 \<or>
              (i + 1 \<le> k \<and> k < iteration_number s \<and> p < 2 \<and> no_stop_between s e (i + 1) k)"
          and P: "\<And>k. PrintExploitability (k + 1) \<in> set tr \<longleftrightarrow> PrintExploitability (k + 1) \<in> set ?t1 \<or>
              (i + 1 \<le> k \<and> k < iteration_number s \<and> probes_at s k \<and> no_stop_between s e (i + 1) k)"
          and L: "\<And>k. LogLine k \<in> set tr \<longleftrightarrow> LogLine k \<in> set ?t1 \<or>
              (logfile s \<noteq> [] \<and> i + 1 \<le> k \<and> k < iteration_number s \<and> probes_at s k \<and>
               no_stop_between s e (i + 1) k)"
          by blast
      have c: "(i \<le> k \<and> k < iteration_number s \<and> Q \<and> no_stop_between s e i k) \<longleftrightarrow>
                 (k = i \<and> Q) \<or> (i + 1 \<le> k \<and> k < iteration_number s \<and> Q \<and> no_stop_between s e (i + 1) k)"
          for k Q
          using True here later[of k] st by (cases "k = i") auto
      show ?thesis
        unfolding r tr using npr by (auto simp: C P L c p2)
    qed
  qed
qed


text \<open>
  C9, as amended. With a nonzero \<open>print_interval\<close>, \<open>train\<close> returns, and in its loop
  the exploitability probe of iteration \<open>i\<close> (the call with argument \<open>i + 1\<close>, and the
  log line when a log file is set) is executed at exactly those iterations that the loop
  reaches with \<open>i % print_interval == 0\<close>, \<open>i != 0\<close> and \<open>i >= warmup\<close>; the loop reaches
  iteration \<open>i < iteration_number\<close>, and runs \<open>cfr\<close> there for both players, exactly
  when no earlier probe reported an exploitability at most \<open>accuracy\<close>.
\<close>

theorem train_probe_schedule:
  assumes "print_interval s \<noteq> 0"
  shows "\<exists>tr. train s e = Some tr \<and>
          (\<forall>i\<ge>0. PrintExploitability (i + 1) \<in> set tr \<longleftrightarrow>
              i < iteration_number s \<and>
              (i smod print_interval s = 0 \<and> i \<noteq> 0 \<and> i \<ge> warmup s) \<and>
              no_stop_between s e 0 i) \<and>
          (\<forall>i\<ge>0. LogLine i \<in> set tr \<longleftrightarrow>
              logfile s \<noteq> [] \<and> i < iteration_number s \<and>
              (i smod print_interval s = 0 \<and> i \<noteq> 0 \<and> i \<ge> warmup s) \<and>
              no_stop_between s e 0 i) \<and>
          (\<forall>i\<ge>0. \<forall>p. Cfr i p \<in> set tr \<longleftrightarrow>
              i < iteration_number s \<and> p < 2 \<and> no_stop_between s e 0 i)"
proof -
  from train_loop_trace[OF assms, of e 0 "[PrintExploitability 0]"]
  obtain tr where tr: "train_loop s e 0 [PrintExploitability 0] = Some tr"
    and C: "\<And>k p. Cfr k p \<in> set tr \<longleftrightarrow> Cfr k p \<in> set [PrintExploitability 0] \<or>
              (0 \<le> k \<and> k < iteration_number s \<and> p < 2 \<and> no_stop_between s e 0 k)"
    and P: "\<And>k. PrintExploitability (k + 1) \<in> set tr \<longleftrightarrow>
              PrintExploitability (k + 1) \<in> set [PrintExploitability 0] \<or>
              (0 \<le> k \<and> k < iteration_number s \<and> probes_at s k \<and> no_stop_between s e 0 k)"
    and L: "\<And>k. LogLine k \<in> set tr \<longleftrightarrow> LogLine k \<in> set [PrintExploitability 0] \<or>
              (logfile s \<noteq> [] \<and> 0 \<le> k \<and> k < iteration_number s \<and> probes_at s k \<and>
               no_stop_between s e 0 k)"
    by blast
  have "train s e = Some tr" by (simp add: train_def tr)
  moreover have "\<forall>i\<ge>0. PrintExploitability (i + 1) \<in> set tr \<longleftrightarrow>
              i < iteration_number s \<and>
              (i smod print_interval s = 0 \<and> i \<noteq> 0 \<and> i \<ge> warmup s) \<and>
              no_stop_between s e 0 i"
    by (auto simp: P probes_at_def)
  moreover have "\<forall>i\<ge>0. LogLine i \<in> set tr \<longleftrightarrow>
              logfile s \<noteq> [] \<and> i < iteration_number s \<and>
              (i smod print_interval s = 0 \<and> i \<noteq> 0 \<and> i \<ge> warmup s) \<and>
              no_stop_between s e 0 i"
    by (auto simp: L probes_at_def)
  moreover have "\<forall>i\<ge>0. \<forall>p. Cfr i p \<in> set tr \<longleftrightarrow>
              i < iteration_number s \<and> p < 2 \<and> no_stop_between s e 0 i"
    by (auto simp: C)
  ultimately show ?thesis by blast
qed

text \<open>
  C9 as stated fails. With \<open>warmup = 1\<close>, \<open>print_interval = 1\<close> and three iterations
  the loop probes at iteration 1 (the call \<open>PrintExploitability 2\<close>), where
  \<open>iter > warmup\<close> does not hold.
\<close>

theorem train_probe_at_warmup_counterexample:
  "train \<lparr>ranges = [[], []], initial_board_long = 0, deck = [],
          color_iso_offset = color_iso_offset_init,
          iteration_number = 3, print_interval = 1, warmup = 1, accuracy = 0,
          logfile = [], monteCarolAlg = NONE, distributing_task = False,
          enable_equity = False\<rparr> (\<lambda>i. 1) =
     Some [PrintExploitability 0, Cfr 0 0, Cfr 0 1, Cfr 1 0, Cfr 1 1, PrintExploitability 2,
           Cfr 2 0, Cfr 2 1, PrintExploitability 3] \<and>
   \<not> (1::int) > 1"
  by (simp add: train_def train_loop.simps signed_modulo_int_def)

theorem train_probe_schedule_witness:
  "print_interval \<lparr>ranges = [[], []], initial_board_long = 0, deck = [],
          color_iso_offset = color_iso_offset_init,
          iteration_number = 3, print_interval = 1, warmup = 1, accuracy = 0,
          logfile = [], monteCarolAlg = NONE, distributing_task = False,
          enable_equity = False\<rparr> \<noteq> 0 \<and>
   PrintExploitability 2 \<in> set (the (train \<lparr>ranges = [[], []], initial_board_long = 0, deck = [],
          color_iso_offset = color_iso_offset_init,
          iteration_number = 3, print_interval = 1, warmup = 1, accuracy = 0,
          logfile = [], monteCarolAlg = NONE, distributing_task = False,
          enable_equity = False\<rparr> (\<lambda>i. 1))) \<and>
   PrintExploitability 1 \<notin> set (the (train \<lparr>ranges = [[], []], initial_board_long = 0, deck = [],
          color_iso_offset = color_iso_offset_init,
          iteration_number = 3, print_interval = 1, warmup = 1, accuracy = 0,
          logfile = [], monteCarolAlg = NONE, distributing_task = False,
          enable_equity = False\<rparr> (\<lambda>i. 1)))"
proof -
  let ?s = "\<lparr>ranges = [[], []], initial_board_long = 0, deck = [],
          color_iso_offset = color_iso_offset_init,
          iteration_number = 3, print_interval = 1, warmup = 1, accuracy = 0,
          logfile = [], monteCarolAlg = NONE, distributing_task = False,
          enable_equity = False\<rparr>"
  let ?e = "\<lambda>i::int. 1::real"
  have h: "print_interval ?s \<noteq> 0" by simp
  from train_probe_schedule[OF h, of ?e]
  obtain tr where tr: "train ?s ?e = Some tr"
    and P: "\<forall>i\<ge>0. PrintExploitability (i + 1) \<in> set tr \<longleftrightarrow>
              i < iteration_number ?s \<and>
              (i smod print_interval ?s = 0 \<and> i \<noteq> 0 \<and> i \<ge> warmup ?s) \<and>
              no_stop_between ?s ?e 0 i"
    by blast
  have ns: "no_stop_between ?s ?e 0 1"
    by (auto simp: no_stop_between_def stops_at_def probes_at_def)
  from P have "PrintExploitability (1 + 1) \<in> set tr \<longleftrightarrow>
              1 < iteration_number ?s \<and>
              (1 smod print_interval ?s = 0 \<and> (1::int) \<noteq> 0 \<and> 1 \<ge> warmup ?s) \<and>
              no_stop_between ?s ?e 0 1"
    by (metis zero_le_one)
  then have a: "PrintExploitability 2 \<in> set tr"
    using ns by (simp add: signed_modulo_int_def)
  from P have "PrintExploitability (0 + 1) \<in> set tr \<longleftrightarrow>
              0 < iteration_number ?s \<and>
              (0 smod print_interval ?s = 0 \<and> (0::int) \<noteq> 0 \<and> 0 \<ge> warmup ?s) \<and>
              no_stop_between ?s ?e 0 0"
    by (metis order_refl)
  then have b: "PrintExploitability 1 \<notin> set tr" by simp
  from h a b show ?thesis by (simp add: tr)
qed

section \<open>Chance nodes\<close>

lemma chance_valid_cards_filter:
  "fold (\<lambda>card_i valid_cards.
        let card_long = boardInt2long (card_int (cards ! card_i))
        in if boardsHasIntercept card_long current_board then valid_cards
           else if iter \<le> warmup s \<and> multiplier ! card_i = 0 then valid_cards
           else if color_iso_offset s ! nat deal ! (card_int (cards ! card_i) mod 4) < 0 then valid_cards
           else valid_cards @ [card_i])
       [0..<n] [] =
   filter (\<lambda>c. \<not> boardsHasIntercept (boardInt2long (card_int (cards ! c))) current_board \<and>
                (iter \<le> warmup s \<longrightarrow> multiplier ! c \<noteq> 0) \<and>
                0 \<le> color_iso_offset s ! nat deal ! (card_int (cards ! c) mod 4))
     [0..<n]"
  by (induction n) (auto simp: Let_def)

lemma chance_valid_cards_eq:
  "chance_valid_cards s cards iter current_board deal multiplier =
   filter (\<lambda>c. \<not> boardsHasIntercept (boardInt2long (card_int (cards ! c))) current_board \<and>
                (iter \<le> warmup s \<longrightarrow> multiplier ! c \<noteq> 0) \<and>
                0 \<le> color_iso_offset s ! nat deal ! (card_int (cards ! c) mod 4))
     [0..<length cards]"
  unfolding chance_valid_cards_def by (rule chance_valid_cards_filter)

lemma fold_write_all:
  assumes "n \<le> length xs"
  shows "fold (\<lambda>i ys. if P i then ys[i := a i] else ys[i := b i]) [0..<n] xs =
           map (\<lambda>i. if i < n then (if P i then a i else b i) else xs ! i) [0..<length xs]"
  using assms
proof (induction n)
  case 0
  show ?case by (auto intro!: nth_equalityI)
next
  case (Suc n)
  then have IH: "fold (\<lambda>i ys. if P i then ys[i := a i] else ys[i := b i]) [0..<n] xs =
           map (\<lambda>i. if i < n then (if P i then a i else b i) else xs ! i) [0..<length xs]"
    by simp
  show ?case
    using Suc.prems by (auto simp: IH intro!: nth_equalityI simp: nth_list_update less_Suc_eq)
qed

lemma chance_new_reach_eq:
  "chance_new_reach oppo_hands reach_probs card_long possible_deals =
     map (\<lambda>h. if boardsHasIntercept card_long (toBoardLong (oppo_hands ! h)) then 0
               else reach_probs ! h / real_of_int possible_deals)
       [0..<length oppo_hands]"
  unfolding chance_new_reach_def
  by (subst fold_write_all) (auto intro!: nth_equalityI)

lemma collect_calls_all_some:
  assumes "\<forall>c \<in> set vs. f c = Inr (Some (g c))"
  shows "collect_calls f vs = Inr (map g vs)"
  using assms by (induction vs) simp_all

text \<open>
  C4. A chance node whose card list has a multiple of four cards, reached with a deal
  \<open>0 \<le> deal \<le> |cards|\<close> outside public Monte-Carlo mode and with task distribution
  off, recurses exactly on the cards \<open>c\<close> of its list, in list order, that are not on
  the board, whose suit has a nonnegative entry in row \<open>deal\<close> of \<open>color_iso_offset\<close>
  and, when \<open>iter \<le> warmup\<close>, whose multiplier is not zero. Each call gets the board
  \<open>current_board | bit(c)\<close>, a reach vector over the opponent's range with 0 for a hand
  holding \<open>c\<close> and \<open>reach_probs[h] / possible_deals\<close> otherwise, where
  \<open>possible_deals = |cards| - |board cards| - 2\<close>, and the deal \<open>c + 1\<close> after deal 0,
  \<open>|cards| * (deal - 1) + c + 1 + |cards|\<close> after a one-card deal.
\<close>

theorem chance_child_calls_exact:
  assumes "length cards mod 4 = 0"
      and "monteCarolAlg s \<noteq> PUBLIC"
      and "0 \<le> deal" and "deal \<le> int (length cards)"
      and "\<not> (distributing_task s \<and> at_split_round)"
      and "player = 0 \<or> player = 1"
      and "length reach_probs = length (ranges s ! nat (1 - player))"
      and "int (length cards) - int (length (long2board current_board)) - 2 \<noteq> 0"
  shows "\<exists>calls.
           chance_child_calls s player cards at_split_round reach_probs iter current_board deal rands =
             Inr calls \<and>
           map call_card calls =
             filter (\<lambda>c. \<not> boardsHasIntercept (boardInt2long (card_int (cards ! c))) current_board \<and>
                          (iter \<le> warmup s \<longrightarrow> chance_multiplier cards current_board rands ! c \<noteq> 0) \<and>
                          0 \<le> color_iso_offset s ! nat deal ! (card_int (cards ! c) mod 4))
               [0..<length cards] \<and>
           (\<forall>call \<in> set calls.
              call_board call = current_board OR boardInt2long (card_int (cards ! call_card call)) \<and>
              length (call_reach call) = length (ranges s ! nat (1 - player)) \<and>
              (\<forall>h < length (ranges s ! nat (1 - player)).
                 call_reach call ! h =
                   (if boardsHasIntercept (boardInt2long (card_int (cards ! call_card call)))
                         (toBoardLong (ranges s ! nat (1 - player) ! h))
                    then 0
                    else reach_probs ! h /
                         real_of_int (int (length cards) - int (length (long2board current_board)) - 2))) \<and>
              call_deal call =
                (if deal = 0 then int (call_card call) + 1
                 else int (length cards) * (deal - 1) + int (call_card call) + 1 + int (length cards)))"
proof -
  let ?pd = "int (length cards) - int (length (long2board current_board)) - 2"
  let ?mult = "if iter \<le> warmup s then chance_multiplier cards current_board rands else []"
  let ?ok = "\<lambda>c. \<not> boardsHasIntercept (boardInt2long (card_int (cards ! c))) current_board \<and>
                          (iter \<le> warmup s \<longrightarrow> chance_multiplier cards current_board rands ! c \<noteq> 0) \<and>
                          0 \<le> color_iso_offset s ! nat deal ! (card_int (cards ! c) mod 4)"
  let ?vs = "filter ?ok [0..<length cards]"
  let ?g = "\<lambda>c. \<lparr>call_card = c,
                 call_board = current_board OR boardInt2long (card_int (cards ! c)),
                 call_reach = chance_new_reach (ranges s ! nat (1 - player)) reach_probs
                                (boardInt2long (card_int (cards ! c))) ?pd,
                 call_deal = (if deal = 0 then int c + 1
                              else int (length cards) * (deal - 1) + int c + 1 + int (length cards))\<rparr>"
  have vs: "chance_valid_cards s cards iter current_board deal ?mult = ?vs"
    unfolding chance_valid_cards_eq by (rule filter_cong) auto
  have one: "chance_call_of s player cards at_split_round reach_probs current_board deal ?pd c =
               Inr (Some (?g c))" for c
    using assms(2-5) by (auto simp: chance_call_of_def Let_def)
  have calls: "chance_child_calls s player cards at_split_round reach_probs iter current_board deal rands =
                 Inr (map ?g ?vs)"
    unfolding chance_child_calls_def Let_def vs using assms(1)
    by (simp add: collect_calls_all_some one)
  have cards: "map call_card (map ?g ?vs) = ?vs" by (simp add: comp_def)
  have each: "call_board call = current_board OR boardInt2long (card_int (cards ! call_card call)) \<and>
              length (call_reach call) = length (ranges s ! nat (1 - player)) \<and>
              (\<forall>h < length (ranges s ! nat (1 - player)).
                 call_reach call ! h =
                   (if boardsHasIntercept (boardInt2long (card_int (cards ! call_card call)))
                         (toBoardLong (ranges s ! nat (1 - player) ! h))
                    then 0
                    else reach_probs ! h / real_of_int ?pd)) \<and>
              call_deal call =
                (if deal = 0 then int (call_card call) + 1
                 else int (length cards) * (deal - 1) + int (call_card call) + 1 + int (length cards))"
    if "call \<in> set (map ?g ?vs)" for call
  proof -
    from that obtain c where c: "call = ?g c" by auto
    show ?thesis unfolding c by (simp add: chance_new_reach_eq)
  qed
  show ?thesis
    unfolding calls using cards each by blast
qed

lemma long2board_one_card: "length (long2board (boardInts2long [0])) = 1"
  by code_simp


theorem chance_child_calls_exact_witness:
  "length [\<lparr>card_int = 0, card_number_in_deck = 0\<rparr>, \<lparr>card_int = 1, card_number_in_deck = 1\<rparr>,
        \<lparr>card_int = 2, card_number_in_deck = 2\<rparr>, \<lparr>card_int = 3, card_number_in_deck = 3\<rparr>] mod 4 = 0 \<and>
   monteCarolAlg \<lparr>ranges = [[\<lparr>card1 = 2, card2 = 3, weight = 1\<rparr>],
                  [\<lparr>card1 = 1, card2 = 2, weight = 1\<rparr>, \<lparr>card1 = 2, card2 = 3, weight = 1\<rparr>]],
        initial_board_long = boardInts2long [0], deck = [],
        color_iso_offset = color_iso_offset_init[0 := [0, 0, 0, - 1]],
        iteration_number = 2, print_interval = 1, warmup = 0, accuracy = 0,
        logfile = [], monteCarolAlg = NONE, distributing_task = False,
        enable_equity = False\<rparr> \<noteq> PUBLIC \<and>
   int (length [\<lparr>card_int = 0, card_number_in_deck = 0\<rparr>, \<lparr>card_int = 1, card_number_in_deck = 1\<rparr>,
        \<lparr>card_int = 2, card_number_in_deck = 2\<rparr>, \<lparr>card_int = 3, card_number_in_deck = 3\<rparr>]) - int (length (long2board (boardInts2long [0]))) - 2 \<noteq> 0 \<and>
   map call_card (projr (chance_child_calls \<lparr>ranges = [[\<lparr>card1 = 2, card2 = 3, weight = 1\<rparr>],
                  [\<lparr>card1 = 1, card2 = 2, weight = 1\<rparr>, \<lparr>card1 = 2, card2 = 3, weight = 1\<rparr>]],
        initial_board_long = boardInts2long [0], deck = [],
        color_iso_offset = color_iso_offset_init[0 := [0, 0, 0, - 1]],
        iteration_number = 2, print_interval = 1, warmup = 0, accuracy = 0,
        logfile = [], monteCarolAlg = NONE, distributing_task = False,
        enable_equity = False\<rparr> 0 [\<lparr>card_int = 0, card_number_in_deck = 0\<rparr>, \<lparr>card_int = 1, card_number_in_deck = 1\<rparr>,
        \<lparr>card_int = 2, card_number_in_deck = 2\<rparr>, \<lparr>card_int = 3, card_number_in_deck = 3\<rparr>] False [1 / 2, 1 / 4] 1
                           (boardInts2long [0]) 0 [])) = [1, 2]"
proof -
  let ?s = "\<lparr>ranges = [[\<lparr>card1 = 2, card2 = 3, weight = 1\<rparr>],
                  [\<lparr>card1 = 1, card2 = 2, weight = 1\<rparr>, \<lparr>card1 = 2, card2 = 3, weight = 1\<rparr>]],
        initial_board_long = boardInts2long [0], deck = [],
        color_iso_offset = color_iso_offset_init[0 := [0, 0, 0, - 1]],
        iteration_number = 2, print_interval = 1, warmup = 0, accuracy = 0,
        logfile = [], monteCarolAlg = NONE, distributing_task = False,
        enable_equity = False\<rparr>"
  let ?cards = "[\<lparr>card_int = 0, card_number_in_deck = 0\<rparr>, \<lparr>card_int = 1, card_number_in_deck = 1\<rparr>,
        \<lparr>card_int = 2, card_number_in_deck = 2\<rparr>, \<lparr>card_int = 3, card_number_in_deck = 3\<rparr>]"
  let ?b = "boardInts2long [0]"
  have h1: "length ?cards mod 4 = 0" by simp
  have h2: "monteCarolAlg ?s \<noteq> PUBLIC" by simp
  have h3: "(0::int) \<le> 0" by simp
  have h4: "(0::int) \<le> int (length ?cards)" by simp
  have h5: "\<not> (distributing_task ?s \<and> False)" by simp
  have h6: "(0::int) = 0 \<or> (0::int) = 1" by simp
  have h7: "length [1 / 2, 1 / 4 :: real] = length (ranges ?s ! nat (1 - 0))" by simp
  have h8: "int (length ?cards) - int (length (long2board ?b)) - 2 \<noteq> 0"
    by (simp add: long2board_one_card)
  from chance_child_calls_exact[OF h1 h2 h3 h4 h5 h6 h7 h8, of 1 "[]"]
  obtain calls where c: "chance_child_calls ?s 0 ?cards False [1 / 2, 1 / 4] 1 ?b 0 [] = Inr calls"
    and m: "map call_card calls =
             filter (\<lambda>c. \<not> boardsHasIntercept (boardInt2long (card_int (?cards ! c))) ?b \<and>
                          ((1::int) \<le> warmup ?s \<longrightarrow> chance_multiplier ?cards ?b [] ! c \<noteq> 0) \<and>
                          0 \<le> color_iso_offset ?s ! nat 0 ! (card_int (?cards ! c) mod 4))
               [0..<length ?cards]"
    by blast
  have four: "[0..<length ?cards] = [0, 1, 2, 3]" by (simp add: upt_rec)
  have m': "map call_card calls = [1, 2]"
    unfolding m four
    by (simp add: boardsHasIntercept_def boardInt2long_def boardInts2long_def
        color_iso_offset_init_def)
  have a: "map call_card (projr (chance_child_calls ?s 0 ?cards False [1 / 2, 1 / 4] 1 ?b 0 [])) = [1, 2]"
    unfolding c sum.sel by (rule m')
  show ?thesis by (intro conjI h1 h2 h8 a)
qed

section \<open>Showdown nodes\<close>

lemma add_oppo_comb_card_sums:
  assumes "hand_ok (private_cards g)" "length cs = 52"
  shows "add_oppo_comb reach g (t, cs) =
           (t + reach ! reach_prob_index g,
            map (\<lambda>c. cs ! c + (if has_card (private_cards g) c then reach ! reach_prob_index g else 0))
              [0..<52])"
proof -
  let ?c1 = "card1 (private_cards g)" and ?c2 = "card2 (private_cards g)"
  let ?r = "reach ! reach_prob_index g"
  have ok: "?c1 < 52" "?c2 < 52" "?c1 \<noteq> ?c2" using assms(1) by (auto simp: hand_ok_def)
  have "(cs[?c1 := cs ! ?c1 + ?r])[?c2 := (cs[?c1 := cs ! ?c1 + ?r]) ! ?c2 + ?r] =
        map (\<lambda>c. cs ! c + (if has_card (private_cards g) c then ?r else 0)) [0..<52]"
    using ok assms(2) by (auto intro!: nth_equalityI simp: nth_list_update has_card_def)
  then show ?thesis by (simp add: add_oppo_comb_def Let_def)
qed

lemma prefix_sums_0: "prefix_sums reach combs 0 = (0, replicate 52 0)"
  by (auto simp: prefix_sums_def intro!: nth_equalityI)

lemma prefix_sums_Suc:
  assumes "hand_ok (private_cards (combs ! n))"
  shows "add_oppo_comb reach (combs ! n) (prefix_sums reach combs n) = prefix_sums reach combs (Suc n)"
  unfolding prefix_sums_def
  by (subst add_oppo_comb_card_sums[OF assms]) (auto intro!: nth_equalityI)

lemma suffix_sums_end: "suffix_sums reach combs (length combs) = (0, replicate 52 0)"
  by (auto simp: suffix_sums_def intro!: nth_equalityI)

lemma suffix_sums_pred:
  assumes "hand_ok (private_cards (combs ! m))" "m < length combs"
  shows "add_oppo_comb reach (combs ! m) (suffix_sums reach combs (Suc m)) = suffix_sums reach combs m"
proof -
  have s: "{m..<length combs} = insert m {Suc m..<length combs}" using assms(2) by auto
  have "(\<Sum>k\<in>{m..<length combs}. f k) = (\<Sum>k\<in>{Suc m..<length combs}. f k) + f m" for f :: "nat \<Rightarrow> real"
    unfolding s by (simp add: add.commute)
  then show ?thesis
    unfolding suffix_sums_def
    by (subst add_oppo_comb_card_sums[OF assms(1)]) (auto intro!: nth_equalityI)
qed

lemma win_scan_to:
  assumes "J \<le> length oc" "j \<le> J"
      and "\<forall>k. j \<le> k \<and> k < J \<longrightarrow> rank p < rank (oc ! k)"
      and "J < length oc \<longrightarrow> \<not> rank p < rank (oc ! J)"
      and ok: "\<forall>g \<in> set oc. hand_ok (private_cards g)"
  shows "win_scan oc reach p (j, prefix_sums reach oc j) = (J, prefix_sums reach oc J)"
  using assms(2,3)
proof (induction "J - j" arbitrary: j)
  case 0
  then have jJ: "j = J" by simp
  obtain w cw where st: "prefix_sums reach oc J = (w, cw)" by (cases "prefix_sums reach oc J")
  have nc: "\<not> (J < length oc \<and> rank p < rank (oc ! J))" using assms(4) by blast
  show ?case unfolding jJ st by (subst win_scan.simps) (simp only: nc if_False)
next
  case (Suc d)
  then have lt: "j < J" by simp
  then have jl: "j < length oc" using assms(1) by simp
  have rk: "rank p < rank (oc ! j)" using Suc.prems(2) lt by simp
  obtain w cw where st: "prefix_sums reach oc j = (w, cw)" by (cases "prefix_sums reach oc j")
  have hk: "hand_ok (private_cards (oc ! j))" using ok jl by simp
  have "win_scan oc reach p (j, prefix_sums reach oc j) =
        win_scan oc reach p (j + 1, add_oppo_comb reach (oc ! j) (w, cw))"
    unfolding st using jl rk by (subst win_scan.simps) simp
  also have "add_oppo_comb reach (oc ! j) (w, cw) = prefix_sums reach oc (Suc j)"
    unfolding st[symmetric] by (rule prefix_sums_Suc[OF hk])
  also have "win_scan oc reach p (j + 1, prefix_sums reach oc (Suc j)) = (J, prefix_sums reach oc J)"
  proof -
    have "win_scan oc reach p (Suc j, prefix_sums reach oc (Suc j)) = (J, prefix_sums reach oc J)"
      by (rule Suc.hyps(1)) (use Suc.hyps(2) lt Suc.prems(2) in auto)
    then show ?thesis by simp
  qed
  finally show ?case .
qed

lemma loss_scan_to:
  assumes "m \<le> length oc" "M \<le> m"
      and "\<forall>k. M \<le> k \<and> k < m \<longrightarrow> rank p > rank (oc ! k)"
      and "M > 0 \<longrightarrow> \<not> rank p > rank (oc ! (M - 1))"
      and ok: "\<forall>g \<in> set oc. hand_ok (private_cards g)"
  shows "loss_scan oc reach p (int m - 1, suffix_sums reach oc m) = (int M - 1, suffix_sums reach oc M)"
  using assms(1,2,3)
proof (induction "m - M" arbitrary: m)
  case 0
  then have mM: "m = M" by simp
  obtain w cw where st: "suffix_sums reach oc M = (w, cw)" by (cases "suffix_sums reach oc M")
  have nc: "\<not> (int M - 1 \<ge> 0 \<and> rank p > rank (oc ! nat (int M - 1)))"
  proof (cases "M = 0")
    case True
    then show ?thesis by simp
  next
    case False
    then have "nat (int M - 1) = M - 1" by simp
    then show ?thesis using assms(4) False by simp
  qed
  show ?case unfolding mM st by (subst loss_scan.simps) (simp only: nc if_False)
next
  case (Suc d)
  then have lt: "M < m" by simp
  then have m0: "0 < m" by simp
  have nj: "nat (int m - 1) = m - 1" by simp
  have ml: "m - 1 < length oc" using Suc.prems(1) m0 by simp
  have rk: "rank p > rank (oc ! (m - 1))" using Suc.prems(3) lt by simp
  obtain w cw where st: "suffix_sums reach oc m = (w, cw)" by (cases "suffix_sums reach oc m")
  have hk: "hand_ok (private_cards (oc ! (m - 1)))" using ok ml by simp
  have sm: "Suc (m - 1) = m" using m0 by simp
  have "loss_scan oc reach p (int m - 1, suffix_sums reach oc m) =
        loss_scan oc reach p (int m - 1 - 1, add_oppo_comb reach (oc ! (m - 1)) (w, cw))"
    unfolding st using m0 rk nj by (subst loss_scan.simps) simp
  also have "add_oppo_comb reach (oc ! (m - 1)) (w, cw) = suffix_sums reach oc (m - 1)"
    unfolding st[symmetric] using suffix_sums_pred[OF hk ml, of reach] by (simp only: sm)
  also have "int m - 1 - 1 = int (m - 1) - 1" using m0 by simp
  also have "loss_scan oc reach p (int (m - 1) - 1, suffix_sums reach oc (m - 1)) =
             (int M - 1, suffix_sums reach oc M)"
    by (rule Suc.hyps(1)) (use Suc.hyps(2) lt Suc.prems in auto)
  finally show ?case .
qed

lemma takeWhile_prefix_closed:
  assumes "\<forall>a b. a \<le> b \<and> b < length xs \<and> P (xs ! b) \<longrightarrow> P (xs ! a)"
      and "k < length xs"
  shows "k < length (takeWhile P xs) \<longleftrightarrow> P (xs ! k)"
proof
  assume k: "k < length (takeWhile P xs)"
  then have "takeWhile P xs ! k \<in> set (takeWhile P xs)" by simp
  then have "P (takeWhile P xs ! k)" by (rule set_takeWhileD[THEN conjunct2])
  then show "P (xs ! k)" using k by (simp add: takeWhile_nth)
next
  assume p: "P (xs ! k)"
  show "k < length (takeWhile P xs)"
  proof (rule ccontr)
    assume "\<not> k < length (takeWhile P xs)"
    then have le: "length (takeWhile P xs) \<le> k" by simp
    then have lt: "length (takeWhile P xs) < length xs" using assms(2) by simp
    then have "\<not> P (xs ! length (takeWhile P xs))" by (rule nth_length_takeWhile)
    moreover have "P (xs ! length (takeWhile P xs))" using assms(1) le assms(2) p by blast
    ultimately show False by simp
  qed
qed

lemma win_bound_le: "win_bound oc r \<le> length oc"
  by (simp add: win_bound_def length_takeWhile_le)

lemma loss_bound_le: "loss_bound oc r \<le> length oc"
  by (simp add: loss_bound_def)

lemma win_bound_iff:
  assumes "rank_descending oc" "k < length oc"
  shows "k < win_bound oc r \<longleftrightarrow> r < rank (oc ! k)"
  unfolding win_bound_def
proof (rule takeWhile_prefix_closed[OF _ assms(2)], intro allI impI)
  fix a b assume h: "a \<le> b \<and> b < length oc \<and> r < rank (oc ! b)"
  then have "rank (oc ! b) \<le> rank (oc ! a)" using assms(1) by (simp add: rank_descending_def)
  with h show "r < rank (oc ! a)" by simp
qed

lemma loss_bound_iff:
  assumes "rank_descending oc" "k < length oc"
  shows "loss_bound oc r \<le> k \<longleftrightarrow> rank (oc ! k) < r"
proof -
  let ?n = "length oc"
  let ?t = "length (takeWhile (\<lambda>g. rank g < r) (rev oc))"
  have tl: "?t \<le> ?n" using length_takeWhile_le[of "\<lambda>g. rank g < r" "rev oc"] by simp
  have k': "?n - 1 - k < length (rev oc)" using assms(2) by simp
  have closed: "\<forall>a b. a \<le> b \<and> b < length (rev oc) \<and> rank (rev oc ! b) < r \<longrightarrow> rank (rev oc ! a) < r"
  proof (intro allI impI)
    fix a b assume h: "a \<le> b \<and> b < length (rev oc) \<and> rank (rev oc ! b) < r"
    then have b: "b < ?n" and a: "a < ?n" by simp_all
    have "rank (oc ! (?n - Suc a)) \<le> rank (oc ! (?n - Suc b))"
      using assms(1) h a b unfolding rank_descending_def
      by (metis diff_le_mono2 Suc_le_mono diff_less zero_less_Suc length_greater_0_conv
          less_nat_zero_code list.size(3))
    then show "rank (rev oc ! a) < r" using h a b by (simp add: rev_nth)
  qed
  have "?n - 1 - k < ?t \<longleftrightarrow> rank (rev oc ! (?n - 1 - k)) < r"
    by (rule takeWhile_prefix_closed[OF closed k'])
  moreover have "rev oc ! (?n - 1 - k) = oc ! k" using assms(2) by (simp add: rev_nth)
  moreover have "?n - 1 - k < ?t \<longleftrightarrow> ?n - ?t \<le> k" using assms(2) tl by auto
  ultimately show ?thesis by (simp add: loss_bound_def)
qed

lemma win_bound_mono:
  assumes "rank_descending oc" "r' \<le> r"
  shows "win_bound oc r \<le> win_bound oc r'"
proof (rule ccontr)
  assume "\<not> win_bound oc r \<le> win_bound oc r'"
  then have lt: "win_bound oc r' < win_bound oc r" by simp
  then have k: "win_bound oc r' < length oc" using win_bound_le[of oc r] by simp
  have "r < rank (oc ! win_bound oc r')" using win_bound_iff[OF assms(1) k, of r] lt by simp
  then have "r' < rank (oc ! win_bound oc r')" using assms(2) by simp
  then have "win_bound oc r' < win_bound oc r'" using win_bound_iff[OF assms(1) k, of r'] by simp
  then show False by simp
qed

lemma loss_bound_mono:
  assumes "rank_descending oc" "r \<le> r'"
  shows "loss_bound oc r' \<le> loss_bound oc r"
proof (cases "loss_bound oc r < length oc")
  case False
  then show ?thesis using loss_bound_le[of oc r'] by simp
next
  case True
  have "rank (oc ! loss_bound oc r) < r" using loss_bound_iff[OF assms(1) True, of r] by simp
  then have "rank (oc ! loss_bound oc r) < r'" using assms(2) by simp
  then show ?thesis using loss_bound_iff[OF assms(1) True, of r'] by simp
qed

lemma fst_fold_core:
  assumes "\<And>i st. fst (step i st) = f i (fst st)"
  shows "fst (fold step xs st0) = fold f xs (fst st0)"
  by (induction xs arbitrary: st0) (simp_all add: assms)

lemma fold_update_other:
  assumes "k \<notin> f ` set xs"
  shows "fold (\<lambda>i ps. ps[f i := g i (ps ! f i)]) xs ps ! k = ps ! k"
  using assms by (induction xs arbitrary: ps) auto

lemma length_fold_update:
  "length (fold (\<lambda>i ps. ps[f i := g i (ps ! f i)]) xs ps) = length ps"
  by (induction xs arbitrary: ps) auto

lemma fold_update_distinct:
  assumes "distinct (map f xs)" "i \<in> set xs" "f i < length ps"
  shows "fold (\<lambda>i ps. ps[f i := g i (ps ! f i)]) xs ps ! f i = g i (ps ! f i)"
  using assms
proof (induction xs arbitrary: ps)
  case Nil
  then show ?case by simp
next
  case (Cons x xs)
  show ?case
  proof (cases "x = i")
    case True
    then have "f i \<notin> f ` set xs" using Cons.prems(1) by auto
    then show ?thesis using True Cons.prems(3) by (simp add: fold_update_other)
  next
    case False
    then have i: "i \<in> set xs" using Cons.prems(2) by simp
    then have ne: "f x \<noteq> f i" using Cons.prems(1) by auto
    have d: "distinct (map f xs)" using Cons.prems(1) by simp
    have l: "f i < length (ps[f x := g x (ps ! f x)])" using Cons.prems(3) by simp
    show ?thesis using Cons.IH[OF d i l] ne by simp
  qed
qed

lemma win_pass:
  assumes od: "rank_descending oc" and pd: "rank_descending pc"
      and ok: "\<forall>g \<in> set oc. hand_ok (private_cards g)"
      and n: "n \<le> length pc"
  shows "fold (win_pass_step pc oc reach W) [0..<n] ((0, 0, replicate 52 0), ps0) =
           ((if n = 0 then 0 else win_bound oc (rank (pc ! (n - 1))),
             prefix_sums reach oc (if n = 0 then 0 else win_bound oc (rank (pc ! (n - 1))))),
            fold (\<lambda>i ps. ps[reach_prob_index (pc ! i) :=
                    (\<lambda>i old. effective_sum (prefix_sums reach oc (win_bound oc (rank (pc ! i))))
                               (private_cards (pc ! i)) * W) i (ps ! reach_prob_index (pc ! i))])
              [0..<n] ps0)"
  using n
proof (induction n)
  case 0
  show ?case by (simp add: prefix_sums_0)
next
  case (Suc n)
  let ?J = "\<lambda>n. if n = 0 then 0 else win_bound oc (rank (pc ! (n - 1)))"
  let ?upd = "\<lambda>i ps. ps[reach_prob_index (pc ! i) :=
                    (\<lambda>i old. effective_sum (prefix_sums reach oc (win_bound oc (rank (pc ! i))))
                               (private_cards (pc ! i)) * W) i (ps ! reach_prob_index (pc ! i))]"
  let ?J' = "win_bound oc (rank (pc ! n))"
  have IH: "fold (win_pass_step pc oc reach W) [0..<n] ((0, 0, replicate 52 0), ps0) =
           ((?J n, prefix_sums reach oc (?J n)), fold ?upd [0..<n] ps0)"
    using Suc by simp
  have le: "?J n \<le> ?J'"
  proof (cases "n = 0")
    case True
    then show ?thesis by simp
  next
    case False
    have "rank (pc ! n) \<le> rank (pc ! (n - 1))"
      using pd Suc.prems unfolding rank_descending_def by (metis Suc_le_lessD diff_le_self)
    then show ?thesis using False win_bound_mono[OF od] by simp
  qed
  have scan: "win_scan oc reach (pc ! n) (?J n, prefix_sums reach oc (?J n)) =
                (?J', prefix_sums reach oc ?J')"
  proof (rule win_scan_to[OF win_bound_le le _ _ ok])
    show "\<forall>k. ?J n \<le> k \<and> k < ?J' \<longrightarrow> rank (pc ! n) < rank (oc ! k)"
    proof (intro allI impI)
      fix k assume k: "?J n \<le> k \<and> k < ?J'"
      then have "k < length oc" using win_bound_le[of oc "rank (pc ! n)"] by simp
      then show "rank (pc ! n) < rank (oc ! k)" using win_bound_iff[OF od] k by simp
    qed
    show "?J' < length oc \<longrightarrow> \<not> rank (pc ! n) < rank (oc ! ?J')"
      using win_bound_iff[OF od, of ?J' "rank (pc ! n)"] by auto
  qed
  have "fold (win_pass_step pc oc reach W) [0..<Suc n] ((0, 0, replicate 52 0), ps0) =
        win_pass_step pc oc reach W n ((?J n, prefix_sums reach oc (?J n)), fold ?upd [0..<n] ps0)"
    by (simp add: IH)
  also have "\<dots> = ((?J', prefix_sums reach oc ?J'), ?upd n (fold ?upd [0..<n] ps0))"
    by (simp add: win_pass_step_def Let_def scan)
  finally show ?case by simp
qed

lemma loss_pass:
  assumes od: "rank_descending oc" and pd: "rank_descending pc"
      and ok: "\<forall>g \<in> set oc. hand_ok (private_cards g)"
      and m: "m \<le> length pc"
  shows "fold (loss_pass_step pc oc reach L) (rev [m..<length pc])
            ((int (length oc) - 1, 0, replicate 52 0), ps1) =
           ((int (if m = length pc then length oc else loss_bound oc (rank (pc ! m))) - 1,
             suffix_sums reach oc (if m = length pc then length oc else loss_bound oc (rank (pc ! m)))),
            fold (\<lambda>i ps. ps[reach_prob_index (pc ! i) :=
                    (\<lambda>i old. old + effective_sum (suffix_sums reach oc (loss_bound oc (rank (pc ! i))))
                                     (private_cards (pc ! i)) * L) i (ps ! reach_prob_index (pc ! i))])
              (rev [m..<length pc]) ps1)"
  using m
proof (induction "length pc - m" arbitrary: m)
  case 0
  then have "m = length pc" by simp
  then show ?case by (simp add: suffix_sums_end)
next
  case (Suc d)
  let ?n = "length pc"
  let ?S = "\<lambda>m. if m = ?n then length oc else loss_bound oc (rank (pc ! m))"
  let ?upd = "\<lambda>i ps. ps[reach_prob_index (pc ! i) :=
                    (\<lambda>i old. old + effective_sum (suffix_sums reach oc (loss_bound oc (rank (pc ! i))))
                                     (private_cards (pc ! i)) * L) i (ps ! reach_prob_index (pc ! i))]"
  from Suc have lt: "m < ?n" by simp
  have r: "rev [m..<?n] = rev [Suc m..<?n] @ [m]" using lt by (simp add: upt_conv_Cons)
  have IH: "fold (loss_pass_step pc oc reach L) (rev [Suc m..<?n])
            ((int (length oc) - 1, 0, replicate 52 0), ps1) =
           ((int (?S (Suc m)) - 1, suffix_sums reach oc (?S (Suc m))),
            fold ?upd (rev [Suc m..<?n]) ps1)"
    by (rule Suc.hyps(1)) (use Suc.hyps(2) lt in auto)
  let ?M = "loss_bound oc (rank (pc ! m))"
  have Sle: "?S (Suc m) \<le> length oc" by (simp add: loss_bound_le)
  have le: "?M \<le> ?S (Suc m)"
  proof (cases "Suc m = ?n")
    case True
    then show ?thesis by (simp add: loss_bound_le)
  next
    case False
    then have "Suc m < ?n" using lt by simp
    then have "rank (pc ! Suc m) \<le> rank (pc ! m)"
      using pd unfolding rank_descending_def by (metis le_add2 plus_1_eq_Suc)
    then show ?thesis using False loss_bound_mono[OF od] by simp
  qed
  have scan: "loss_scan oc reach (pc ! m) (int (?S (Suc m)) - 1, suffix_sums reach oc (?S (Suc m))) =
                (int ?M - 1, suffix_sums reach oc ?M)"
  proof (rule loss_scan_to[OF Sle le _ _ ok])
    show "\<forall>k. ?M \<le> k \<and> k < ?S (Suc m) \<longrightarrow> rank (pc ! m) > rank (oc ! k)"
    proof (intro allI impI)
      fix k assume k: "?M \<le> k \<and> k < ?S (Suc m)"
      then have "k < length oc" using Sle by simp
      then show "rank (pc ! m) > rank (oc ! k)" using loss_bound_iff[OF od] k by simp
    qed
    show "?M > 0 \<longrightarrow> \<not> rank (pc ! m) > rank (oc ! (?M - 1))"
    proof
      assume M0: "?M > 0"
      then have "?M - 1 < length oc" using loss_bound_le[of oc "rank (pc ! m)"] by simp
      have "\<not> ?M \<le> ?M - 1" using M0 by arith
      with loss_bound_iff[OF od \<open>?M - 1 < length oc\<close>, of "rank (pc ! m)"]
      show "\<not> rank (pc ! m) > rank (oc ! (?M - 1))" by blast
    qed
  qed
  have "fold (loss_pass_step pc oc reach L) (rev [m..<?n])
            ((int (length oc) - 1, 0, replicate 52 0), ps1) =
        loss_pass_step pc oc reach L m
          ((int (?S (Suc m)) - 1, suffix_sums reach oc (?S (Suc m))), fold ?upd (rev [Suc m..<?n]) ps1)"
    unfolding r by (simp add: IH)
  also have "\<dots> = ((int ?M - 1, suffix_sums reach oc ?M), ?upd m (fold ?upd (rev [Suc m..<?n]) ps1))"
    by (simp add: loss_pass_step_def Let_def scan)
  finally show ?case using lt unfolding r by simp
qed

lemma sum_win_bound:
  assumes "rank_descending oc"
  shows "(\<Sum>k<win_bound oc r. f k) = (\<Sum>k<length oc. if r < rank (oc ! k) then f k else (0::real))"
proof -
  have "(\<Sum>k<length oc. if r < rank (oc ! k) then f k else 0) =
        (\<Sum>k\<in>{..<length oc}. if k < win_bound oc r then f k else 0)"
    by (intro sum.cong refl) (simp add: win_bound_iff[OF assms])
  also have "\<dots> = (\<Sum>k\<in>{k \<in> {..<length oc}. k < win_bound oc r}. f k)"
    by (rule sum.inter_filter[symmetric]) simp
  also have "{k \<in> {..<length oc}. k < win_bound oc r} = {..<win_bound oc r}"
    using win_bound_le[of oc r] by auto
  finally show ?thesis by simp
qed

lemma sum_loss_bound:
  assumes "rank_descending oc"
  shows "(\<Sum>k\<in>{loss_bound oc r..<length oc}. f k) =
         (\<Sum>k<length oc. if rank (oc ! k) < r then f k else (0::real))"
proof -
  have "(\<Sum>k<length oc. if rank (oc ! k) < r then f k else 0) =
        (\<Sum>k\<in>{..<length oc}. if loss_bound oc r \<le> k then f k else 0)"
    by (intro sum.cong refl) (simp add: loss_bound_iff[OF assms])
  also have "\<dots> = (\<Sum>k\<in>{k \<in> {..<length oc}. loss_bound oc r \<le> k}. f k)"
    by (rule sum.inter_filter[symmetric]) simp
  also have "{k \<in> {..<length oc}. loss_bound oc r \<le> k} = {loss_bound oc r..<length oc}"
    by auto
  finally show ?thesis by simp
qed

lemma if_and_sum: "(if a then (if b then x else 0) else 0) = (if a \<and> b then x else (0::real))"
  by simp

lemma effective_win:
  assumes "rank_descending oc" "hand_ok h"
  shows "effective_sum (prefix_sums reach oc (win_bound oc r)) h =
      (\<Sum>k<length oc. if r < rank (oc ! k) then reach ! reach_prob_index (oc ! k) else 0)
      - (\<Sum>k<length oc. if r < rank (oc ! k) \<and> has_card (private_cards (oc ! k)) (card1 h)
                          then reach ! reach_prob_index (oc ! k) else 0)
      - (\<Sum>k<length oc. if r < rank (oc ! k) \<and> has_card (private_cards (oc ! k)) (card2 h)
                          then reach ! reach_prob_index (oc ! k) else 0)"
proof -
  have c: "card1 h < 52" "card2 h < 52" using assms(2) by (simp_all add: hand_ok_def)
  show ?thesis
    using c by (simp add: effective_sum_def prefix_sums_def sum_win_bound[OF assms(1)] if_and_sum)
qed

lemma effective_loss:
  assumes "rank_descending oc" "hand_ok h"
  shows "effective_sum (suffix_sums reach oc (loss_bound oc r)) h =
      (\<Sum>k<length oc. if rank (oc ! k) < r then reach ! reach_prob_index (oc ! k) else 0)
      - (\<Sum>k<length oc. if rank (oc ! k) < r \<and> has_card (private_cards (oc ! k)) (card1 h)
                          then reach ! reach_prob_index (oc ! k) else 0)
      - (\<Sum>k<length oc. if rank (oc ! k) < r \<and> has_card (private_cards (oc ! k)) (card2 h)
                          then reach ! reach_prob_index (oc ! k) else 0)"
proof -
  have c: "card1 h < 52" "card2 h < 52" using assms(2) by (simp_all add: hand_ok_def)
  show ?thesis
    using c by (simp add: effective_sum_def suffix_sums_def sum_loss_bound[OF assms(1)] if_and_sum)
qed

lemma showdownUtility_payoffs_fold:
  assumes od: "rank_descending oc" and pd: "rank_descending pc"
      and ok: "\<forall>g \<in> set oc. hand_ok (private_cards g)"
  shows "payoffs (showdownUtility s player W L pc oc reach) =
           fold (\<lambda>i ps. ps[reach_prob_index (pc ! i) :=
                    (\<lambda>i old. old + effective_sum (suffix_sums reach oc (loss_bound oc (rank (pc ! i))))
                                     (private_cards (pc ! i)) * L) i (ps ! reach_prob_index (pc ! i))])
              (rev [0..<length pc])
              (fold (\<lambda>i ps. ps[reach_prob_index (pc ! i) :=
                    (\<lambda>i old. effective_sum (prefix_sums reach oc (win_bound oc (rank (pc ! i))))
                               (private_cards (pc ! i)) * W) i (ps ! reach_prob_index (pc ! i))])
                 [0..<length pc] (replicate (length (ranges s ! nat player)) 0))"
proof -
  have "payoffs (showdownUtility s player W L pc oc reach) =
     snd (fold (loss_pass_step pc oc reach L) (rev [0..<length pc])
            ((int (length oc) - 1, 0, replicate 52 0),
             snd (fold (win_pass_step pc oc reach W) [0..<length pc]
                    ((0, 0, replicate 52 0), replicate (length (ranges s ! nat player)) 0))))"
    unfolding showdownUtility_def Let_def
    by (simp add: fst_fold_core[where f = "loss_pass_step pc oc reach L"]
        fst_fold_core[where f = "win_pass_step pc oc reach W"])
  then show ?thesis
    by (simp add: win_pass[OF od pd ok order_refl] loss_pass[OF od pd ok le0])
qed

lemma length_fold_list_update:
  "length (fold (\<lambda>i ps. ps[f i := h i ps]) xs ps) = length ps"
  by (induction xs arbitrary: ps) auto

text \<open>
  C2. At a showdown node with win payoff \<open>W\<close> and lose payoff \<open>L\<close>, with the two
  sequences of the river rank cache listed by non-increasing rank number (the weakest
  hand first, the order both pointer passes rely on), well-formed hands and every
  player hand listed once: for each listed player hand \<open>h\<close>,
  \<open>payoffs[h] = eff_win * W + eff_loss * L\<close>, where \<open>eff_win\<close> is the opponent reach
  summed over the opponent hands ranked strictly worse than \<open>h\<close> (a larger rank
  number) minus the same sum restricted to the hands holding \<open>h\<close>'s first card and
  minus the one restricted to the hands holding its second card, and \<open>eff_loss\<close> is
  the same over the opponent hands ranked strictly better. Opponent hands of equal rank
  are in neither sum.
\<close>

theorem showdownUtility_payoffs:
  assumes od: "rank_descending oppo_combs" and pd: "rank_descending player_combs"
      and oko: "\<forall>g \<in> set oppo_combs.
                  hand_ok (private_cards g) \<and> reach_prob_index g < length reach_probs"
      and okp: "\<forall>g \<in> set player_combs.
                  hand_ok (private_cards g) \<and> reach_prob_index g < length (ranges s ! nat player)"
      and dist: "distinct (map reach_prob_index player_combs)"
      and i: "i < length player_combs"
  shows "payoffs (showdownUtility s player win_payoff lose_payoff player_combs oppo_combs reach_probs)
           ! reach_prob_index (player_combs ! i) =
         ((\<Sum>k<length oppo_combs.
             if rank (player_combs ! i) < rank (oppo_combs ! k)
             then reach_probs ! reach_prob_index (oppo_combs ! k) else 0)
          - (\<Sum>k<length oppo_combs.
               if rank (player_combs ! i) < rank (oppo_combs ! k) \<and>
                  has_card (private_cards (oppo_combs ! k)) (card1 (private_cards (player_combs ! i)))
               then reach_probs ! reach_prob_index (oppo_combs ! k) else 0)
          - (\<Sum>k<length oppo_combs.
               if rank (player_combs ! i) < rank (oppo_combs ! k) \<and>
                  has_card (private_cards (oppo_combs ! k)) (card2 (private_cards (player_combs ! i)))
               then reach_probs ! reach_prob_index (oppo_combs ! k) else 0)) * win_payoff
         + ((\<Sum>k<length oppo_combs.
               if rank (oppo_combs ! k) < rank (player_combs ! i)
               then reach_probs ! reach_prob_index (oppo_combs ! k) else 0)
            - (\<Sum>k<length oppo_combs.
                 if rank (oppo_combs ! k) < rank (player_combs ! i) \<and>
                    has_card (private_cards (oppo_combs ! k)) (card1 (private_cards (player_combs ! i)))
                 then reach_probs ! reach_prob_index (oppo_combs ! k) else 0)
            - (\<Sum>k<length oppo_combs.
                 if rank (oppo_combs ! k) < rank (player_combs ! i) \<and>
                    has_card (private_cards (oppo_combs ! k)) (card2 (private_cards (player_combs ! i)))
                 then reach_probs ! reach_prob_index (oppo_combs ! k) else 0)) * lose_payoff"
proof -
  let ?f = "\<lambda>i. reach_prob_index (player_combs ! i)"
  let ?n = "length (ranges s ! nat player)"
  let ?gw = "\<lambda>i (old::real). effective_sum (prefix_sums reach_probs oppo_combs
                 (win_bound oppo_combs (rank (player_combs ! i)))) (private_cards (player_combs ! i)) * win_payoff"
  let ?gl = "\<lambda>i (old::real). old + effective_sum (suffix_sums reach_probs oppo_combs
                 (loss_bound oppo_combs (rank (player_combs ! i)))) (private_cards (player_combs ! i)) * lose_payoff"
  let ?p1 = "fold (\<lambda>i ps. ps[?f i := ?gw i (ps ! ?f i)]) [0..<length player_combs] (replicate ?n 0)"
  have ok: "\<forall>g \<in> set oppo_combs. hand_ok (private_cards g)" using oko by blast
  have hp: "hand_ok (private_cards (player_combs ! i))" and fi: "?f i < ?n"
    using okp i by simp_all
  have m: "map ?f [0..<length player_combs] = map reach_prob_index player_combs"
    by (intro nth_equalityI) simp_all
  have d1: "distinct (map ?f [0..<length player_combs])" unfolding m by (rule dist)
  have d2: "distinct (map ?f (rev [0..<length player_combs]))"
    using d1 by (simp add: rev_map[symmetric])
  have i1: "i \<in> set [0..<length player_combs]" and i2: "i \<in> set (rev [0..<length player_combs])"
    using i by simp_all
  have l1: "?f i < length ?p1" using fi by (simp add: length_fold_list_update)
  have "payoffs (showdownUtility s player win_payoff lose_payoff player_combs oppo_combs reach_probs) ! ?f i =
        fold (\<lambda>i ps. ps[?f i := ?gl i (ps ! ?f i)]) (rev [0..<length player_combs]) ?p1 ! ?f i"
    by (simp only: showdownUtility_payoffs_fold[OF od pd ok])
  also have "\<dots> = ?gl i (?p1 ! ?f i)"
    by (rule fold_update_distinct[OF d2 i2 l1])
  also have "?p1 ! ?f i = ?gw i (replicate ?n 0 ! ?f i)"
    by (rule fold_update_distinct[OF d1 i1]) (use fi in simp)
  finally show ?thesis
    by (simp only: effective_win[OF od hp] effective_loss[OF od hp] add.commute)
qed

theorem showdownUtility_payoffs_witness:
  "rank_descending [\<lparr>private_cards = \<lparr>card1 = 4, card2 = 5, weight = 1\<rparr>, rank = 12, reach_prob_index = 1\<rparr>,
        \<lparr>private_cards = \<lparr>card1 = 0, card2 = 2, weight = 1\<rparr>, rank = 10, reach_prob_index = 0\<rparr>,
        \<lparr>private_cards = \<lparr>card1 = 6, card2 = 7, weight = 1\<rparr>, rank = 3, reach_prob_index = 2\<rparr>] \<and>
   rank_descending [\<lparr>private_cards = \<lparr>card1 = 2, card2 = 3, weight = 1\<rparr>, rank = 10, reach_prob_index = 1\<rparr>,
        \<lparr>private_cards = \<lparr>card1 = 0, card2 = 1, weight = 1\<rparr>, rank = 5, reach_prob_index = 0\<rparr>] \<and>
   distinct (map reach_prob_index [\<lparr>private_cards = \<lparr>card1 = 2, card2 = 3, weight = 1\<rparr>, rank = 10, reach_prob_index = 1\<rparr>,
        \<lparr>private_cards = \<lparr>card1 = 0, card2 = 1, weight = 1\<rparr>, rank = 5, reach_prob_index = 0\<rparr>]) \<and>
   payoffs (showdownUtility \<lparr>ranges = [[\<lparr>card1 = 0, card2 = 1, weight = 1\<rparr>, \<lparr>card1 = 2, card2 = 3, weight = 1\<rparr>],
                  [\<lparr>card1 = 0, card2 = 2, weight = 1\<rparr>, \<lparr>card1 = 4, card2 = 5, weight = 1\<rparr>,
                   \<lparr>card1 = 6, card2 = 7, weight = 1\<rparr>]],
        initial_board_long = boardInts2long [8, 9, 10, 12, 16], deck = [],
        color_iso_offset = color_iso_offset_init,
        iteration_number = 1, print_interval = 1, warmup = 0, accuracy = 0,
        logfile = [], monteCarolAlg = NONE, distributing_task = False,
        enable_equity = False\<rparr> 0 3 (- 3) [\<lparr>private_cards = \<lparr>card1 = 2, card2 = 3, weight = 1\<rparr>, rank = 10, reach_prob_index = 1\<rparr>,
        \<lparr>private_cards = \<lparr>card1 = 0, card2 = 1, weight = 1\<rparr>, rank = 5, reach_prob_index = 0\<rparr>] [\<lparr>private_cards = \<lparr>card1 = 4, card2 = 5, weight = 1\<rparr>, rank = 12, reach_prob_index = 1\<rparr>,
        \<lparr>private_cards = \<lparr>card1 = 0, card2 = 2, weight = 1\<rparr>, rank = 10, reach_prob_index = 0\<rparr>,
        \<lparr>private_cards = \<lparr>card1 = 6, card2 = 7, weight = 1\<rparr>, rank = 3, reach_prob_index = 2\<rparr>] [1, 2, 4]) ! 0 = - 6 \<and>
   payoffs (showdownUtility \<lparr>ranges = [[\<lparr>card1 = 0, card2 = 1, weight = 1\<rparr>, \<lparr>card1 = 2, card2 = 3, weight = 1\<rparr>],
                  [\<lparr>card1 = 0, card2 = 2, weight = 1\<rparr>, \<lparr>card1 = 4, card2 = 5, weight = 1\<rparr>,
                   \<lparr>card1 = 6, card2 = 7, weight = 1\<rparr>]],
        initial_board_long = boardInts2long [8, 9, 10, 12, 16], deck = [],
        color_iso_offset = color_iso_offset_init,
        iteration_number = 1, print_interval = 1, warmup = 0, accuracy = 0,
        logfile = [], monteCarolAlg = NONE, distributing_task = False,
        enable_equity = False\<rparr> 0 3 (- 3) [\<lparr>private_cards = \<lparr>card1 = 2, card2 = 3, weight = 1\<rparr>, rank = 10, reach_prob_index = 1\<rparr>,
        \<lparr>private_cards = \<lparr>card1 = 0, card2 = 1, weight = 1\<rparr>, rank = 5, reach_prob_index = 0\<rparr>] [\<lparr>private_cards = \<lparr>card1 = 4, card2 = 5, weight = 1\<rparr>, rank = 12, reach_prob_index = 1\<rparr>,
        \<lparr>private_cards = \<lparr>card1 = 0, card2 = 2, weight = 1\<rparr>, rank = 10, reach_prob_index = 0\<rparr>,
        \<lparr>private_cards = \<lparr>card1 = 6, card2 = 7, weight = 1\<rparr>, rank = 3, reach_prob_index = 2\<rparr>] [1, 2, 4]) ! 1 = - 6"
proof -
  let ?s = "\<lparr>ranges = [[\<lparr>card1 = 0, card2 = 1, weight = 1\<rparr>, \<lparr>card1 = 2, card2 = 3, weight = 1\<rparr>],
                  [\<lparr>card1 = 0, card2 = 2, weight = 1\<rparr>, \<lparr>card1 = 4, card2 = 5, weight = 1\<rparr>,
                   \<lparr>card1 = 6, card2 = 7, weight = 1\<rparr>]],
        initial_board_long = boardInts2long [8, 9, 10, 12, 16], deck = [],
        color_iso_offset = color_iso_offset_init,
        iteration_number = 1, print_interval = 1, warmup = 0, accuracy = 0,
        logfile = [], monteCarolAlg = NONE, distributing_task = False,
        enable_equity = False\<rparr>"
  let ?pc = "[\<lparr>private_cards = \<lparr>card1 = 2, card2 = 3, weight = 1\<rparr>, rank = 10, reach_prob_index = 1\<rparr>,
        \<lparr>private_cards = \<lparr>card1 = 0, card2 = 1, weight = 1\<rparr>, rank = 5, reach_prob_index = 0\<rparr>]"
  let ?oc = "[\<lparr>private_cards = \<lparr>card1 = 4, card2 = 5, weight = 1\<rparr>, rank = 12, reach_prob_index = 1\<rparr>,
        \<lparr>private_cards = \<lparr>card1 = 0, card2 = 2, weight = 1\<rparr>, rank = 10, reach_prob_index = 0\<rparr>,
        \<lparr>private_cards = \<lparr>card1 = 6, card2 = 7, weight = 1\<rparr>, rank = 3, reach_prob_index = 2\<rparr>]"
  have od: "rank_descending ?oc"
    by (auto simp: rank_descending_def less_Suc_eq le_Suc_eq numeral_3_eq_3)
  have pd: "rank_descending ?pc"
    by (auto simp: rank_descending_def less_Suc_eq le_Suc_eq numeral_2_eq_2)
  have oko: "\<forall>g \<in> set ?oc. hand_ok (private_cards g) \<and> reach_prob_index g < length [1, 2, 4::real]"
    by (simp add: hand_ok_def)
  have okp: "\<forall>g \<in> set ?pc. hand_ok (private_cards g) \<and> reach_prob_index g < length (ranges ?s ! nat 0)"
    by (simp add: hand_ok_def)
  have dist: "distinct (map reach_prob_index ?pc)" by simp
  have three: "{..<3::nat} = {0, 1, 2}" by auto
  have a: "payoffs (showdownUtility ?s 0 3 (- 3) ?pc ?oc [1, 2, 4]) ! 0 = - 6"
    using showdownUtility_payoffs[OF od pd oko okp dist, of 1 3 "- 3"]
    by (simp add: three has_card_def)
  have b: "payoffs (showdownUtility ?s 0 3 (- 3) ?pc ?oc [1, 2, 4]) ! 1 = - 6"
    using showdownUtility_payoffs[OF od pd oko okp dist, of 0 3 "- 3"]
    by (simp add: three has_card_def)
  show ?thesis by (intro conjI od pd dist a b)
qed

section \<open>Rounding\<close>

lemma expo_up_numeral:
  "expo_up (numeral k) x = (if x < 2 then 0 else expo_up (pred_numeral k) (x / 2) + 1)"
  by (simp add: numeral_eq_Suc)

lemma expo_down_numeral:
  "expo_down (numeral k) x = (if 1 \<le> x then 0 else expo_down (pred_numeral k) (2 * x) - 1)"
  by (simp add: numeral_eq_Suc)

lemmas float_eval = fl32_def fl64_def round_float_def exponent_of_def pow2_def round_even_def
  Let_def expo_up_numeral expo_down_numeral fsum_def fdiv_def ddiv_def fsub_def

lemma fl32_0: "fl32 0 = Num 0"
  by (simp add: float_eval)

lemma round_even_of_int: "round_even (of_int k) = k"
  by (simp add: round_even_def)

lemma round_even_minus: "round_even (- x) = - round_even x"
proof -
  define n where "n = \<lfloor>x\<rfloor>"
  define d where "d = x - of_int n"
  have d: "0 \<le> d" "d < 1" unfolding d_def n_def by linarith+
  have x: "x = of_int n + d" by (simp add: d_def)
  show ?thesis
  proof (cases "d = 0")
    case True
    then have "x = of_int n" using x by simp
    then show ?thesis by (metis of_int_minus round_even_of_int)
  next
    case False
    have fl: "\<lfloor>- x\<rfloor> = - n - 1"
      by (rule floor_unique) (use d False x in simp_all)
    have d': "- x - of_int (- n - 1) = 1 - d" using x by simp
    have dd: "x - of_int n = d" by (simp add: d_def)
    have par: "even (- n - 1) \<longleftrightarrow> odd n" by simp
    show ?thesis
      unfolding round_even_def Let_def fl n_def[symmetric]
      unfolding d' dd
      using d False by (auto simp: par)
  qed
qed

lemma round_even_error: "\<bar>of_int (round_even x) - x\<bar> \<le> 1 / 2"
  unfolding round_even_def Let_def by (auto; linarith)

lemma round_even_nonneg: "0 \<le> x \<Longrightarrow> 0 \<le> round_even x"
  unfolding round_even_def Let_def by (auto; linarith)

lemma round_float_minus:
  "round_float p emax (- x) = fneg (round_float p emax x)"
  unfolding round_float_def Let_def
  using round_even_of_int[of 0] zero_less_power[of "2::real" emax]
  by (auto simp: round_even_minus simp del: zero_less_power)

lemma fl32_minus: "fl32 (- x) = fneg (fl32 x)"
  unfolding fl32_def by (rule round_float_minus)

lemma pow2_pos: "0 < pow2 e"
  by (simp add: pow2_def)

lemma pow2_add: "pow2 (a + b) = pow2 a * pow2 b"
proof -
  have "pow2 e = 2 powr (of_int e)" for e
    by (simp add: pow2_def powr_realpow[symmetric] powr_minus divide_inverse)
  then show ?thesis by (simp add: powr_add)
qed

lemma pow2_0: "pow2 0 = 1" by (simp add: pow2_def)

lemma pow2_Suc: "pow2 (e + 1) = 2 * pow2 e"
  using pow2_add[of e 1] by (simp add: pow2_def)

lemma pow2_mono: "a \<le> b \<Longrightarrow> pow2 a \<le> pow2 b"
proof -
  have "pow2 e = 2 powr (of_int e)" for e
    by (simp add: pow2_def powr_realpow[symmetric] powr_minus divide_inverse)
  then show "a \<le> b \<Longrightarrow> pow2 a \<le> pow2 b" by simp
qed

lemma pow2_nat: "pow2 (int n) = 2 ^ n"
  by (simp add: pow2_def)

lemma expo_up_bounds:
  "1 \<le> x \<Longrightarrow> 0 \<le> expo_up n x \<and> expo_up n x \<le> int n \<and> pow2 (expo_up n x) \<le> x"
proof (induction n x rule: expo_up.induct)
  case (1 x)
  then show ?case by (simp add: pow2_def)
next
  case (2 n x)
  show ?case
  proof (cases "x < 2")
    case True
    then show ?thesis using 2(2) by (simp add: pow2_def)
  next
    case False
    then have "1 \<le> x / 2" by simp
    from 2(1)[OF False this] have IH: "0 \<le> expo_up n (x / 2)" "expo_up n (x / 2) \<le> int n"
      "pow2 (expo_up n (x / 2)) \<le> x / 2" by simp_all
    show ?thesis using False IH by (simp add: pow2_Suc)
  qed
qed

lemma expo_down_bounds:
  "0 \<le> x \<Longrightarrow> x < 1 \<Longrightarrow>
   - int n \<le> expo_down n x \<and> expo_down n x \<le> 0 \<and>
   (expo_down n x = - int n \<or> pow2 (expo_down n x) \<le> x)"
proof (induction n x rule: expo_down.induct)
  case (1 x)
  then show ?case by simp
next
  case (2 n x)
  show ?case
  proof (cases "1 \<le> 2 * x")
    case True
    have "expo_down (Suc n) x = (case n of 0 \<Rightarrow> - 1 | Suc m \<Rightarrow> - 1)"
      using 2(3) True by (cases n) simp_all
    then have e: "expo_down (Suc n) x = - 1" by (cases n) simp_all
    have "pow2 (- 1) \<le> x" using True by (simp add: pow2_def)
    then show ?thesis unfolding e by simp
  next
    case False
    then have lt: "2 * x < 1" by simp
    have nle: "\<not> 1 \<le> x" using 2(3) by simp
    from 2(1)[OF nle _ lt] 2(2)
    have IH: "- int n \<le> expo_down n (2 * x)" "expo_down n (2 * x) \<le> 0"
      "expo_down n (2 * x) = - int n \<or> pow2 (expo_down n (2 * x)) \<le> 2 * x" by simp_all
    have e: "expo_down (Suc n) x = expo_down n (2 * x) - 1" using nle by simp
    have "pow2 (expo_down n (2 * x)) = 2 * pow2 (expo_down n (2 * x) - 1)"
      using pow2_Suc[of "expo_down n (2 * x) - 1"] by simp
    then show ?thesis unfolding e using IH by auto
  qed
qed

lemma exponent_of_bounds:
  assumes "0 \<le> x" "1 \<le> emax"
  shows "1 - int emax \<le> exponent_of emax x"
    and "exponent_of emax x = 1 - int emax \<or> pow2 (exponent_of emax x) \<le> x"
    and "x \<le> pow2 (int emax) \<Longrightarrow> exponent_of emax x \<le> int emax"
proof -
  show "1 - int emax \<le> exponent_of emax x"
    using expo_up_bounds[of x "emax + 1"] expo_down_bounds[of x "emax - 1"] assms
    by (auto simp: exponent_of_def of_nat_diff)
  show "exponent_of emax x = 1 - int emax \<or> pow2 (exponent_of emax x) \<le> x"
    using expo_up_bounds[of x "emax + 1"] expo_down_bounds[of x "emax - 1"] assms
    by (auto simp: exponent_of_def of_nat_diff)
  show "exponent_of emax x \<le> int emax" if le: "x \<le> pow2 (int emax)"
  proof (cases "1 \<le> x")
    case False
    then show ?thesis
      using expo_down_bounds[of x "emax - 1"] assms by (simp add: exponent_of_def)
  next
    case True
    let ?e = "expo_up (emax + 1) x"
    have b: "0 \<le> ?e" "?e \<le> int (emax + 1)" "pow2 ?e \<le> x"
      using expo_up_bounds[OF True, of "emax + 1"] by simp_all
    have "?e \<noteq> int emax + 1"
    proof
      assume "?e = int emax + 1"
      then have "pow2 (int emax + 1) \<le> x" using b(3) by simp
      then have "2 * pow2 (int emax) \<le> pow2 (int emax)" using le by (simp add: pow2_Suc)
      then show False using pow2_pos[of "int emax"] by simp
    qed
    then show ?thesis using b(2) True by (simp add: exponent_of_def)
  qed
qed

lemma pow2_minus: "pow2 (a - int p) = pow2 a / 2 ^ p"
proof -
  have "pow2 a = pow2 (a - int p) * pow2 (int p)"
    using pow2_add[of "a - int p" "int p"] by simp
  then show ?thesis by (simp add: pow2_nat)
qed

lemma round_float_error:
  assumes x: "\<bar>x\<bar> \<le> pow2 (int emax)" and emax: "1 \<le> emax" and p: "1 \<le> p"
  shows "\<exists>y. round_float p emax x = Num y \<and>
             (\<bar>y - x\<bar> \<le> \<bar>x\<bar> / 2 ^ p \<or> \<bar>y - x\<bar> \<le> pow2 (1 - int emax - int p)) \<and>
             (pow2 (1 - int emax) \<le> \<bar>x\<bar> \<longrightarrow> \<bar>y - x\<bar> \<le> \<bar>x\<bar> / 2 ^ p) \<and>
             (0 \<le> x \<longrightarrow> 0 \<le> y)"
proof -
  define e where "e = exponent_of emax \<bar>x\<bar>"
  define ulp where "ulp = pow2 (e - int p + 1)"
  define y where "y = of_int (round_even (x / ulp)) * ulp"
  have e1: "1 - int emax \<le> e" and e2: "e = 1 - int emax \<or> pow2 e \<le> \<bar>x\<bar>" and e3: "e \<le> int emax"
    unfolding e_def using exponent_of_bounds[of "\<bar>x\<bar>" emax] x emax by simp_all
  have up: "0 < ulp" unfolding ulp_def by (rule pow2_pos)
  have "\<bar>of_int (round_even (x / ulp)) - x / ulp\<bar> \<le> 1 / 2" by (rule round_even_error)
  then have "\<bar>of_int (round_even (x / ulp)) - x / ulp\<bar> * ulp \<le> 1 / 2 * ulp"
    using up by (intro mult_right_mono) simp_all
  moreover have "\<bar>of_int (round_even (x / ulp)) - x / ulp\<bar> * ulp = \<bar>y - x\<bar>"
  proof -
    have "\<bar>of_int (round_even (x / ulp)) - x / ulp\<bar> * ulp =
          \<bar>(of_int (round_even (x / ulp)) - x / ulp) * ulp\<bar>"
      using up by (simp add: abs_mult)
    also have "(of_int (round_even (x / ulp)) - x / ulp) * ulp = y - x"
      using up by (simp add: y_def algebra_simps)
    finally show ?thesis .
  qed
  ultimately have err: "\<bar>y - x\<bar> \<le> ulp / 2" by simp
  have half: "ulp / 2 = pow2 (e - int p)"
    unfolding ulp_def using pow2_Suc[of "e - int p"] by simp
  have half': "ulp / 2 = pow2 e / 2 ^ p" unfolding half by (rule pow2_minus)
  have A: "\<bar>y - x\<bar> \<le> \<bar>x\<bar> / 2 ^ p \<or> \<bar>y - x\<bar> \<le> pow2 (1 - int emax - int p)"
  proof (cases "e = 1 - int emax")
    case True
    then show ?thesis using err half by simp
  next
    case False
    then have "pow2 e \<le> \<bar>x\<bar>" using e2 by simp
    then have "pow2 e / 2 ^ p \<le> \<bar>x\<bar> / 2 ^ p" by (simp add: divide_right_mono)
    then show ?thesis using err half' by simp
  qed
  have B: "\<bar>y - x\<bar> \<le> \<bar>x\<bar> / 2 ^ p" if n: "pow2 (1 - int emax) \<le> \<bar>x\<bar>"
  proof -
    have "pow2 e \<le> \<bar>x\<bar>" using e2 n by auto
    then have "pow2 e / 2 ^ p \<le> \<bar>x\<bar> / 2 ^ p" by (simp add: divide_right_mono)
    then show ?thesis using err half' by simp
  qed
  have C: "0 \<le> y" if "0 \<le> x"
  proof -
    have "0 \<le> x / ulp" using that up by simp
    then have "0 \<le> round_even (x / ulp)" by (rule round_even_nonneg)
    then show ?thesis unfolding y_def using up by simp
  qed
  have fin: "\<bar>y\<bar> < 2 ^ (emax + 1)"
  proof -
    have "e - int p \<le> int emax - 1" using e3 p by simp
    then have "pow2 (e - int p) \<le> pow2 (int emax - 1)" by (rule pow2_mono)
    also have "\<dots> < pow2 (int emax)"
      using pow2_Suc[of "int emax - 1"] pow2_pos[of "int emax - 1"] by simp
    finally have "ulp / 2 < pow2 (int emax)" unfolding half .
    moreover have "\<bar>y\<bar> \<le> \<bar>x\<bar> + \<bar>y - x\<bar>" by simp
    ultimately have "\<bar>y\<bar> < pow2 (int emax) + pow2 (int emax)" using err x by linarith
    then show ?thesis by (simp add: pow2_nat)
  qed
  have "round_float p emax x = Num y"
    unfolding round_float_def Let_def e_def[symmetric] ulp_def[symmetric] y_def[symmetric]
    using fin by simp
  then show ?thesis using A B C by blast
qed

lemma fl32_error:
  assumes "\<bar>x\<bar> \<le> 2 ^ 127"
  shows "\<exists>y. fl32 x = Num y \<and> \<bar>y - x\<bar> \<le> \<bar>x\<bar> / 2 ^ 24 + 1 / 2 ^ 150 \<and> (0 \<le> x \<longrightarrow> 0 \<le> y)"
proof -
  have "\<bar>x\<bar> \<le> pow2 (int 127)" using assms by (simp add: pow2_def)
  from round_float_error[OF this, of 24]
  obtain y where y: "round_float 24 127 x = Num y"
    "\<bar>y - x\<bar> \<le> \<bar>x\<bar> / 2 ^ 24 \<or> \<bar>y - x\<bar> \<le> pow2 (1 - int 127 - int 24)" "0 \<le> x \<longrightarrow> 0 \<le> y"
    by auto
  have "pow2 (1 - int 127 - int 24) = 1 / 2 ^ 150" by (simp add: pow2_def)
  then have "\<bar>y - x\<bar> \<le> \<bar>x\<bar> / 2 ^ 24 + 1 / 2 ^ 150"
    using y(2) by (auto intro: order_trans)
  then show ?thesis using y(1,3) by (auto simp: fl32_def)
qed

lemma fl32_rel_error:
  assumes "1 / 2 ^ 126 \<le> \<bar>x\<bar>" "\<bar>x\<bar> \<le> 2 ^ 127"
  shows "\<exists>y. fl32 x = Num y \<and> \<bar>y - x\<bar> \<le> \<bar>x\<bar> / 2 ^ 24 \<and> (0 \<le> x \<longrightarrow> 0 \<le> y)"
proof -
  have a: "\<bar>x\<bar> \<le> pow2 (int 127)" using assms by (simp add: pow2_def)
  have b: "pow2 (1 - int 127) \<le> \<bar>x\<bar>" using assms by (simp add: pow2_def)
  from round_float_error[OF a, of 24] b
  show ?thesis by (auto simp: fl32_def)
qed

lemma fl64_rel_error:
  assumes "1 / 2 ^ 1022 \<le> \<bar>x\<bar>" "\<bar>x\<bar> \<le> 2 ^ 1023"
  shows "\<exists>y. fl64 x = Num y \<and> \<bar>y - x\<bar> \<le> \<bar>x\<bar> / 2 ^ 53 \<and> (0 \<le> x \<longrightarrow> 0 \<le> y)"
proof -
  have a: "\<bar>x\<bar> \<le> pow2 (int 1023)" using assms by (simp add: pow2_def)
  have b: "pow2 (1 - int 1023) \<le> \<bar>x\<bar>" using assms by (simp add: pow2_def)
  from round_float_error[OF a, of 53] b
  show ?thesis by (auto simp: fl64_def)
qed

section \<open>The average strategy\<close>

lemma fold_fadd_foldl:
  "fold (\<lambda>a s. fadd s (f a)) [0..<n] s0 = foldl fadd s0 (map f [0..<n])"
  by (induction n) simp_all

lemma fold_column_write:
  assumes "n * H \<le> length xs" "p < H"
  shows "fold (\<lambda>a avg. avg[a * H + p := v (a * H + p)]) [0..<n] xs =
           map (\<lambda>i. if i mod H = p \<and> i div H < n then v i else xs ! i) [0..<length xs]"
  using assms(1)
proof (induction n)
  case 0
  show ?case by (auto intro!: nth_equalityI)
next
  case (Suc n)
  let ?xs = "map (\<lambda>i. if i mod H = p \<and> i div H < n then v i else xs ! i) [0..<length xs]"
  have IH: "fold (\<lambda>a avg. avg[a * H + p := v (a * H + p)]) [0..<n] xs = ?xs"
    using Suc by simp
  have m: "(n * H + p) mod H = p" and d: "(n * H + p) div H = n"
    using assms(2) by simp_all
  have lt: "n * H + p < length xs" using Suc.prems assms(2) by simp
  have "fold (\<lambda>a avg. avg[a * H + p := v (a * H + p)]) [0..<Suc n] xs =
          ?xs[n * H + p := v (n * H + p)]"
    by (simp add: IH)
  also have "\<dots> = map (\<lambda>i. if i mod H = p \<and> i div H < Suc n then v i else xs ! i) [0..<length xs]"
  proof (rule nth_equalityI)
    show "length (?xs[n * H + p := v (n * H + p)]) =
          length (map (\<lambda>i. if i mod H = p \<and> i div H < Suc n then v i else xs ! i) [0..<length xs])"
      by simp
  next
    fix i assume "i < length (?xs[n * H + p := v (n * H + p)])"
    then have i: "i < length xs" by simp
    show "?xs[n * H + p := v (n * H + p)] ! i =
          map (\<lambda>i. if i mod H = p \<and> i div H < Suc n then v i else xs ! i) [0..<length xs] ! i"
    proof (cases "i = n * H + p")
      case True
      then show ?thesis using i m d by simp
    next
      case False
      have "\<not> (i mod H = p \<and> i div H = n)"
      proof
        assume "i mod H = p \<and> i div H = n"
        then have "i = n * H + p" using div_mult_mod_eq[of i H] by simp
        with False show False by simp
      qed
      then show ?thesis using i False by (auto simp: less_Suc_eq)
    qed
  qed
  finally show ?case .
qed

lemma getAverageStrategy_unfold:
  "getAverageStrategy tr =
     map (\<lambda>i. if float_to_bool
                   (fsum (map (\<lambda>a. Num (cum_r_plus tr ! (a * card_number tr + i mod card_number tr)))
                            [0..<action_number tr]))
               then fdiv (Num (cum_r_plus tr ! i))
                      (fsum (map (\<lambda>a. Num (cum_r_plus tr ! (a * card_number tr + i mod card_number tr)))
                               [0..<action_number tr]))
               else float_of_double (ddiv (Num 1) (Num (real (action_number tr)))))
       [0..<action_number tr * card_number tr]"
proof -
  let ?A = "action_number tr" and ?H = "card_number tr" and ?cum = "cum_r_plus tr"
  let ?S = "\<lambda>p. fsum (map (\<lambda>a. Num (?cum ! (a * ?H + p))) [0..<?A])"
  let ?V = "\<lambda>p i. if float_to_bool (?S p) then fdiv (Num (?cum ! i)) (?S p)
                   else float_of_double (ddiv (Num 1) (Num (real ?A)))"
  let ?step = "\<lambda>p avg. fold (\<lambda>a avg. avg[a * ?H + p := ?V p (a * ?H + p)]) [0..<?A] avg"
  have def: "getAverageStrategy tr = fold ?step [0..<?H] (replicate (?A * ?H) (Num 0))"
    unfolding getAverageStrategy_def Let_def fold_fadd_foldl fsum_def by (simp cong: if_cong)
  have outer: "fold ?step [0..<m] xs =
      map (\<lambda>i. if i mod ?H < m then ?V (i mod ?H) i else xs ! i) [0..<length xs]"
    if "m \<le> ?H" "length xs = ?A * ?H" for m and xs :: "cfloat list"
    using that(1)
  proof (induction m)
    case 0
    show ?case by (auto intro!: nth_equalityI)
  next
    case (Suc m)
    let ?xs = "map (\<lambda>i. if i mod ?H < m then ?V (i mod ?H) i else xs ! i) [0..<length xs]"
    have IH: "fold ?step [0..<m] xs = ?xs" using Suc by simp
    have l: "?A * ?H \<le> length ?xs" using that(2) by simp
    have p: "m < ?H" using Suc.prems by simp
    have "fold ?step [0..<Suc m] xs = ?step m ?xs" by (simp add: IH)
    also have "\<dots> = map (\<lambda>i. if i mod ?H = m \<and> i div ?H < ?A then ?V m i else ?xs ! i)
                         [0..<length ?xs]"
      by (rule fold_column_write[OF l p])
    also have "\<dots> = map (\<lambda>i. if i mod ?H < Suc m then ?V (i mod ?H) i else xs ! i) [0..<length xs]"
    proof (rule nth_equalityI)
      show "length (map (\<lambda>i. if i mod ?H = m \<and> i div ?H < ?A then ?V m i else ?xs ! i)
                         [0..<length ?xs]) =
            length (map (\<lambda>i. if i mod ?H < Suc m then ?V (i mod ?H) i else xs ! i) [0..<length xs])"
        by simp
    next
      fix i
      assume "i < length (map (\<lambda>i. if i mod ?H = m \<and> i div ?H < ?A then ?V m i else ?xs ! i)
                         [0..<length ?xs])"
      then have i: "i < ?A * ?H" using that(2) by simp
      have "i div ?H < ?A" using i p by (simp add: less_mult_imp_div_less)
      then show "map (\<lambda>i. if i mod ?H = m \<and> i div ?H < ?A then ?V m i else ?xs ! i)
                         [0..<length ?xs] ! i =
            map (\<lambda>i. if i mod ?H < Suc m then ?V (i mod ?H) i else xs ! i) [0..<length xs] ! i"
        using i that(2) by (auto simp: less_Suc_eq)
    qed
    finally show ?case .
  qed
  have "getAverageStrategy tr =
      map (\<lambda>i. if i mod ?H < ?H then ?V (i mod ?H) i else replicate (?A * ?H) (Num 0) ! i)
        [0..<length (replicate (?A * ?H) (Num 0))]"
    unfolding def by (rule outer) simp_all
  also have "\<dots> = map (\<lambda>i. ?V (i mod ?H) i) [0..<?A * ?H]"
  proof (cases "?H = 0")
    case True
    then show ?thesis by simp
  next
    case False
    then show ?thesis by simp
  qed
  finally show ?thesis .
qed

lemma getAverageStrategy_nth:
  assumes "h < card_number tr" "a < action_number tr"
  shows "getAverageStrategy tr ! (a * card_number tr + h) =
     (if float_to_bool
           (fsum (map (\<lambda>a. Num (cum_r_plus tr ! (a * card_number tr + h))) [0..<action_number tr]))
      then fdiv (Num (cum_r_plus tr ! (a * card_number tr + h)))
             (fsum (map (\<lambda>a. Num (cum_r_plus tr ! (a * card_number tr + h))) [0..<action_number tr]))
      else float_of_double (ddiv (Num 1) (Num (real (action_number tr)))))"
proof -
  have "a * card_number tr + h < action_number tr * card_number tr"
    using assms(2,1) by (rule index_in_range)
  then show ?thesis using assms(1) by (simp add: getAverageStrategy_unfold)
qed

lemma one_plus_u_power:
  assumes "n \<le> 2 ^ 24"
  shows "(1 + 1 / 2 ^ 24) ^ n \<le> (3::real)"
proof -
  have "(1 + 1 / 2 ^ 24 :: real) ^ n \<le> exp (1 / 2 ^ 24) ^ n"
    by (intro power_mono) (use exp_ge_add_one_self[of "1 / 2 ^ 24"] in simp_all)
  also have "\<dots> = exp (real n * (1 / 2 ^ 24))" by (rule exp_of_nat_mult[symmetric])
  also have "\<dots> \<le> exp 1"
  proof -
    have "real n \<le> 2 ^ 24" using assms by (metis of_nat_le_iff of_nat_numeral of_nat_power)
    then have "real n * (1 / 2 ^ 24) \<le> 1" by simp
    then show ?thesis by simp
  qed
  also have "\<dots> \<le> 3" by (rule exp_le)
  finally show ?thesis .
qed

lemma fsum_snoc: "fsum (xs @ [x]) = fadd (fsum xs) x"
  by (simp add: fsum_def)

lemma fsum_error_step:
  fixes c :: "nat \<Rightarrow> real"
  assumes nonneg: "\<forall>a<n. 0 \<le> c a"
      and n: "n \<le> 2 ^ 20"
      and T: "(\<Sum>a<n. c a) \<le> 2 ^ 100"
      and k: "k \<le> n"
  shows "\<exists>s. fsum (map (\<lambda>a. Num (c a)) [0..<k]) = Num s \<and> 0 \<le> s \<and>
             \<bar>s - (\<Sum>a<k. c a)\<bar> \<le>
               real k * (1 + 1 / 2 ^ 24) ^ k * ((\<Sum>a<n. c a) / 2 ^ 24 + 1 / 2 ^ 150)"
  using k
proof (induction k)
  case 0
  show ?case by (simp add: fsum_def)
next
  case (Suc k)
  define T where "T = (\<Sum>a<n. c a)"
  define B where "B = T / 2 ^ 24 + 1 / 2 ^ 150"
  define w where "w = (1 + 1 / 2 ^ 24 :: real)"
  have T0: "0 \<le> T" unfolding T_def using nonneg by (intro sum_nonneg) simp
  have TT: "T \<le> 2 ^ 100" using T by (simp add: T_def)
  have B0: "0 \<le> B" unfolding B_def using T0 by simp
  have w1: "1 \<le> w" by (simp add: w_def)
  have kn: "k < n" using Suc.prems by simp
  from Suc.IH kn obtain s where s: "fsum (map (\<lambda>a. Num (c a)) [0..<k]) = Num s" "0 \<le> s"
    and E: "\<bar>s - (\<Sum>a<k. c a)\<bar> \<le> real k * w ^ k * B"
    unfolding T_def B_def w_def by auto
  have ck: "0 \<le> c k" using nonneg kn by simp
  have Tk: "(\<Sum>a<Suc k. c a) \<le> T"
    unfolding T_def using nonneg kn
    by (intro sum_mono2) auto
  have wk3: "w ^ k \<le> 3"
    unfolding w_def by (rule one_plus_u_power) (use kn n in simp)
  have wk0: "0 \<le> w ^ k" using w1 by simp
  have k20: "real k \<le> 2 ^ 20"
  proof -
    have "k \<le> 2 ^ 20" using kn n by simp
    then show ?thesis by (metis of_nat_le_iff of_nat_numeral of_nat_power)
  qed
  have Bb: "B \<le> 2 ^ 76 + 1"
  proof -
    have "T / 2 ^ 24 \<le> 2 ^ 100 / 2 ^ 24" using TT by (simp add: divide_right_mono)
    then show ?thesis unfolding B_def by simp
  qed
  have Eb: "real k * w ^ k * B \<le> 2 ^ 20 * 3 * (2 ^ 76 + 1)"
    by (intro mult_mono k20 wk3 Bb mult_nonneg_nonneg B0 wk0) simp_all
  define x where "x = s + c k"
  have x0: "0 \<le> x" unfolding x_def using s(2) ck by simp
  have xle: "x \<le> T + real k * w ^ k * B"
  proof -
    have "s \<le> (\<Sum>a<k. c a) + real k * w ^ k * B" using E by linarith
    then have "x \<le> (\<Sum>a<Suc k. c a) + real k * w ^ k * B" unfolding x_def by simp
    then show ?thesis using Tk by linarith
  qed
  have "x \<le> 2 ^ 100 + 2 ^ 20 * 3 * (2 ^ 76 + 1)" using xle TT Eb by linarith
  also have "\<dots> \<le> (2::real) ^ 127" by simp
  finally have xb: "\<bar>x\<bar> \<le> 2 ^ 127" using x0 by simp
  from fl32_error[OF xb] x0 obtain y where y: "fl32 x = Num y" "0 \<le> y"
    and ye: "\<bar>y - x\<bar> \<le> x / 2 ^ 24 + 1 / 2 ^ 150" by auto
  have f: "fsum (map (\<lambda>a. Num (c a)) [0..<Suc k]) = Num y"
    by (simp add: fsum_snoc s(1) x_def[symmetric] y(1))
  have "\<bar>y - (\<Sum>a<Suc k. c a)\<bar> \<le> \<bar>y - x\<bar> + \<bar>s - (\<Sum>a<k. c a)\<bar>"
    unfolding x_def by simp
  also have "\<dots> \<le> (x / 2 ^ 24 + 1 / 2 ^ 150) + real k * w ^ k * B"
    using ye E by linarith
  also have "\<dots> \<le> ((T + real k * w ^ k * B) / 2 ^ 24 + 1 / 2 ^ 150) + real k * w ^ k * B"
    using xle by (simp add: divide_right_mono)
  also have "\<dots> = B + real k * w ^ Suc k * B"
    unfolding B_def w_def by (simp add: algebra_simps add_divide_distrib)
  also have "\<dots> \<le> w ^ Suc k * B + real k * w ^ Suc k * B"
  proof -
    have "1 \<le> w ^ Suc k" using w1 by (rule one_le_power)
    then have "1 * B \<le> w ^ Suc k * B" using B0 by (intro mult_right_mono)
    then show ?thesis by simp
  qed
  also have "\<dots> = real (Suc k) * w ^ Suc k * B" by (simp add: algebra_simps)
  finally have "\<bar>y - (\<Sum>a<Suc k. c a)\<bar> \<le> real (Suc k) * w ^ Suc k * B" .
  then show ?case using f y(2) unfolding T_def B_def w_def by blast
qed

lemma fsum_error:
  fixes c :: "nat \<Rightarrow> real"
  assumes nonneg: "\<forall>a<n. 0 \<le> c a"
      and n: "n \<le> 2 ^ 20"
      and T: "(\<Sum>a<n. c a) \<le> 2 ^ 100"
  shows "\<exists>s. fsum (map (\<lambda>a. Num (c a)) [0..<n]) = Num s \<and> 0 \<le> s \<and>
             \<bar>s - (\<Sum>a<n. c a)\<bar> \<le> 3 * real n * ((\<Sum>a<n. c a) / 2 ^ 24 + 1 / 2 ^ 150)"
proof -
  define B where "B = (\<Sum>a<n. c a) / 2 ^ 24 + 1 / 2 ^ 150"
  have B0: "0 \<le> B" unfolding B_def using nonneg by (intro add_nonneg_nonneg divide_nonneg_nonneg sum_nonneg) simp_all
  from fsum_error_step[OF nonneg n T order_refl]
  obtain s where s: "fsum (map (\<lambda>a. Num (c a)) [0..<n]) = Num s" "0 \<le> s"
    and E: "\<bar>s - (\<Sum>a<n. c a)\<bar> \<le> real n * (1 + 1 / 2 ^ 24) ^ n * B"
    unfolding B_def by blast
  have "(1 + 1 / 2 ^ 24 :: real) ^ n \<le> 3" by (rule one_plus_u_power) (use n in simp)
  then have "real n * (1 + 1 / 2 ^ 24) ^ n * B \<le> real n * 3 * B"
    using B0 by (intro mult_right_mono mult_left_mono) simp_all
  then have "\<bar>s - (\<Sum>a<n. c a)\<bar> \<le> 3 * real n * B" using E by (simp add: mult.commute)
  then show ?thesis using s unfolding B_def by blast
qed

lemma fdiv_Num: "s \<noteq> 0 \<Longrightarrow> fdiv (Num a) (Num s) = fl32 (a / s)"
  by (simp add: fdiv_def)

lemma average_column_error:
  fixes c :: "nat \<Rightarrow> real"
  assumes nonneg: "\<forall>a<A. 0 \<le> c a"
      and A: "A \<le> 2 ^ 20"
      and T1: "1 / 2 ^ 126 \<le> (\<Sum>a<A. c a)"
      and T2: "(\<Sum>a<A. c a) \<le> 2 ^ 100"
  shows "\<exists>s q. fsum (map (\<lambda>a. Num (c a)) [0..<A]) = Num s \<and> s \<noteq> 0 \<and>
           (\<forall>a<A. fdiv (Num (c a)) (Num s) = Num (q a) \<and>
                   \<bar>q a - c a / (\<Sum>a<A. c a)\<bar> \<le>
                      c a / (\<Sum>a<A. c a) * (12 * real A / 2 ^ 24) + 1 / 2 ^ 150)"
proof -
  define T where "T = (\<Sum>a<A. c a)"
  define n where "n = real A"
  have Tpos: "0 < T" using T1 unfolding T_def by (rule less_le_trans[rotated]) simp
  have A1: "1 \<le> A"
  proof (rule ccontr)
    assume "\<not> 1 \<le> A"
    then have "A = 0" by simp
    then show False using Tpos by (simp add: T_def)
  qed
  have n1: "1 \<le> n" using A1 by (simp add: n_def)
  have n20: "n \<le> 2 ^ 20"
    unfolding n_def using A by (metis of_nat_le_iff of_nat_numeral of_nat_power)
  from fsum_error[OF nonneg A T2]
  obtain s where s: "fsum (map (\<lambda>a. Num (c a)) [0..<A]) = Num s" "0 \<le> s"
    and E: "\<bar>s - T\<bar> \<le> 3 * n * (T / 2 ^ 24 + 1 / 2 ^ 150)"
    unfolding T_def n_def by blast
  have eta: "1 / 2 ^ 150 \<le> T / (2 ^ 24 :: real)"
  proof -
    have "1 / 2 ^ 126 / 2 ^ 24 \<le> T / (2 ^ 24 :: real)"
      using T1 unfolding T_def by (intro divide_right_mono) simp_all
    then show ?thesis by simp
  qed
  have "3 * n * (T / 2 ^ 24 + 1 / 2 ^ 150) \<le> 3 * n * (T / 2 ^ 24 + T / 2 ^ 24)"
    using eta n1 by (intro mult_left_mono) simp_all
  then have D: "\<bar>s - T\<bar> \<le> 6 * n * T / 2 ^ 24" using E by simp
  have "6 * n * T / 2 ^ 24 \<le> 6 * 2 ^ 20 * T / 2 ^ 24"
    using n20 Tpos by (intro divide_right_mono mult_right_mono mult_left_mono) simp_all
  then have D2: "\<bar>s - T\<bar> \<le> 3 / 8 * T" using D by simp
  have sl: "5 / 8 * T \<le> s" using D2 by linarith
  have spos: "0 < s" using sl Tpos by linarith
  define t where "t = T / s"
  have tpos: "0 < t" unfolding t_def using Tpos spos by simp
  have t85: "t \<le> 8 / 5" unfolding t_def using sl spos by (simp add: field_simps)
  have t1: "\<bar>t - 1\<bar> \<le> 48 / 5 * n / 2 ^ 24"
  proof -
    have "\<bar>t - 1\<bar> = \<bar>T - s\<bar> / s" unfolding t_def using spos by (simp add: field_simps)
    also have "\<dots> \<le> (6 * n * T / 2 ^ 24) / s"
      using D spos by (intro divide_right_mono) (simp_all add: abs_minus_commute)
    also have "\<dots> = 6 * n / 2 ^ 24 * t" unfolding t_def by simp
    also have "\<dots> \<le> 6 * n / 2 ^ 24 * (8 / 5)"
      using t85 n1 by (intro mult_left_mono) simp_all
    finally show ?thesis by simp
  qed
  define q where "q a = (case fl32 (c a / s) of Num y \<Rightarrow> y | _ \<Rightarrow> 0)" for a
  have ent: "fdiv (Num (c a)) (Num s) = Num (q a) \<and>
             \<bar>q a - c a / T\<bar> \<le> c a / T * (12 * n / 2 ^ 24) + 1 / 2 ^ 150" if a: "a < A" for a
  proof -
    define r where "r = c a / T"
    have ca: "0 \<le> c a" using nonneg a by simp
    have "c a \<le> T"
    proof -
      have "(\<Sum>a\<in>{a}. c a) \<le> (\<Sum>a<A. c a)"
        using nonneg a by (intro sum_mono2) auto
      then show ?thesis by (simp add: T_def)
    qed
    then have r01: "0 \<le> r" "r \<le> 1" unfolding r_def using ca Tpos by simp_all
    have x: "c a / s = r * t" unfolding r_def t_def using Tpos spos by simp
    have x0: "0 \<le> r * t" using r01 tpos by simp
    have xle: "r * t \<le> r * (8 / 5)" using t85 r01 by (intro mult_left_mono)
    have "r * t \<le> 1 * (8 / 5)" using t85 r01 tpos by (intro mult_mono) simp_all
    then have "\<bar>r * t\<bar> \<le> 2 ^ 127" using x0 by simp
    from fl32_error[OF this] obtain y where y: "fl32 (r * t) = Num y"
      and ye: "\<bar>y - r * t\<bar> \<le> \<bar>r * t\<bar> / 2 ^ 24 + 1 / 2 ^ 150" by blast
    have qy: "q a = y" unfolding q_def x y by simp
    have f: "fdiv (Num (c a)) (Num s) = Num (q a)"
      using spos by (simp add: fdiv_Num x y qy)
    have e1: "\<bar>y - r * t\<bar> \<le> r * (8 / 5) / 2 ^ 24 + 1 / 2 ^ 150"
    proof -
      have "\<bar>r * t\<bar> / 2 ^ 24 \<le> r * (8 / 5) / 2 ^ 24"
        using xle x0 by (intro divide_right_mono) simp_all
      then show ?thesis using ye by linarith
    qed
    have e2: "\<bar>r * t - r\<bar> \<le> r * (48 / 5 * n / 2 ^ 24)"
    proof -
      have "r * t - r = r * (t - 1)" by (simp add: algebra_simps)
      then have "\<bar>r * t - r\<bar> = r * \<bar>t - 1\<bar>" using r01 by (simp add: abs_mult)
      also have "\<dots> \<le> r * (48 / 5 * n / 2 ^ 24)" using t1 r01 by (intro mult_left_mono)
      finally show ?thesis .
    qed
    have "\<bar>y - r\<bar> \<le> \<bar>y - r * t\<bar> + \<bar>r * t - r\<bar>" by simp
    also have "\<dots> \<le> r * (8 / 5) / 2 ^ 24 + 1 / 2 ^ 150 + r * (48 / 5 * n / 2 ^ 24)"
      using e1 e2 by linarith
    also have "\<dots> = r * ((48 / 5 * n + 8 / 5) / 2 ^ 24) + 1 / 2 ^ 150"
      by (simp add: algebra_simps add_divide_distrib)
    also have "\<dots> \<le> r * (12 * n / 2 ^ 24) + 1 / 2 ^ 150"
    proof -
      have "48 / 5 * n + 8 / 5 \<le> 12 * n" using n1 by simp
      then have "(48 / 5 * n + 8 / 5) / 2 ^ 24 \<le> 12 * n / 2 ^ 24"
        by (intro divide_right_mono) simp_all
      then have "r * ((48 / 5 * n + 8 / 5) / 2 ^ 24) \<le> r * (12 * n / 2 ^ 24)"
        using r01 by (intro mult_left_mono)
      then show ?thesis by simp
    qed
    finally show ?thesis using f unfolding qy r_def by simp
  qed
  have "s \<noteq> 0" using spos by simp
  then show ?thesis using s(1) ent unfolding T_def n_def by blast
qed

lemma average_column_sum:
  fixes c q :: "nat \<Rightarrow> real"
  assumes T: "0 < (\<Sum>a<A. c a)"
      and q: "\<forall>a<A. \<bar>q a - c a / (\<Sum>a<A. c a)\<bar> \<le>
                      c a / (\<Sum>a<A. c a) * (12 * real A / 2 ^ 24) + 1 / 2 ^ 150"
  shows "\<bar>(\<Sum>a<A. q a) - 1\<bar> \<le> real A / 2 ^ 20"
proof -
  define T where "T = (\<Sum>a<A. c a)"
  have one: "(\<Sum>a<A. c a / T) = 1"
    using T unfolding T_def by (simp flip: sum_divide_distrib)
  have "(\<Sum>a<A. q a) - 1 = (\<Sum>a<A. q a - c a / T)"
    by (simp add: sum_subtractf one)
  also have "\<bar>\<dots>\<bar> \<le> (\<Sum>a<A. \<bar>q a - c a / T\<bar>)" by (rule sum_abs)
  also have "\<dots> \<le> (\<Sum>a<A. c a / T * (12 * real A / 2 ^ 24) + 1 / 2 ^ 150)"
    using q unfolding T_def by (intro sum_mono) simp
  also have "\<dots> = (\<Sum>a<A. c a / T * (12 * real A / 2 ^ 24)) + (\<Sum>a<A. 1 / 2 ^ 150)"
    by (rule sum.distrib)
  also have "\<dots> = (\<Sum>a<A. c a / T) * (12 * real A / 2 ^ 24) + real A * (1 / 2 ^ 150)"
    by (simp only: sum_distrib_right[symmetric] sum_constant card_lessThan)
  also have "\<dots> = 12 * real A / 2 ^ 24 + real A * (1 / 2 ^ 150)" unfolding one by simp
  also have "\<dots> \<le> real A / 2 ^ 20" by simp
  finally show ?thesis .
qed

lemma fsum_zeros: "fsum (map (\<lambda>a. Num 0) [0..<n]) = Num 0"
  by (induction n) (simp_all add: fsum_def fl32_0)

lemma uniform_fallback_error:
  assumes "1 \<le> A" "A \<le> 2 ^ 20"
  shows "\<exists>v. float_of_double (ddiv (Num 1) (Num (real A))) = Num v \<and>
             \<bar>v - 1 / real A\<bar> \<le> 1 / real A / 2 ^ 23"
proof -
  define x where "x = 1 / real A"
  have n1: "1 \<le> real A" using assms(1) by simp
  have n20: "real A \<le> 2 ^ 20"
    using assms(2) by (metis of_nat_le_iff of_nat_numeral of_nat_power)
  have xpos: "0 < x" unfolding x_def using n1 by simp
  have x1: "x \<le> 1" unfolding x_def using n1 by simp
  have xl: "1 / 2 ^ 20 \<le> x" unfolding x_def using n1 n20 by (simp add: field_simps)
  have a: "1 / 2 ^ 1022 \<le> \<bar>x\<bar>"
  proof -
    have "(1::real) / 2 ^ 1022 \<le> 1 / 2 ^ 20" by (simp add: field_simps)
    then show ?thesis using xl xpos by linarith
  qed
  have b: "\<bar>x\<bar> \<le> 2 ^ 1023"
  proof -
    have "(1::real) \<le> 2 ^ 1023" by simp
    then show ?thesis using x1 xpos by linarith
  qed
  from fl64_rel_error[OF a b] xpos obtain y where y: "fl64 x = Num y" "0 \<le> y"
    and ye: "\<bar>y - x\<bar> \<le> x / 2 ^ 53" by auto
  have yl: "x / 2 \<le> y"
  proof -
    have "x / 2 ^ 53 \<le> x / 2" using xpos by (simp add: field_simps)
    then show ?thesis using ye by linarith
  qed
  have yu: "y \<le> 2 * x"
  proof -
    have "x / 2 ^ 53 \<le> x" using xpos by (simp add: field_simps)
    then show ?thesis using ye by linarith
  qed
  have c: "1 / 2 ^ 126 \<le> \<bar>y\<bar>"
  proof -
    have "(1::real) / 2 ^ 126 \<le> 1 / 2 ^ 20 / 2" by (simp add: field_simps)
    also have "\<dots> \<le> x / 2" using xl by (intro divide_right_mono) simp_all
    also have "\<dots> \<le> y" by (rule yl)
    finally have "1 / 2 ^ 126 \<le> y" .
    then show ?thesis using y(2) by simp
  qed
  have d: "\<bar>y\<bar> \<le> 2 ^ 127"
  proof -
    have "(2::real) \<le> 2 ^ 127" by simp
    then show ?thesis using yu x1 y(2) by linarith
  qed
  from fl32_rel_error[OF c d] obtain v where v: "fl32 y = Num v"
    and ve: "\<bar>v - y\<bar> \<le> \<bar>y\<bar> / 2 ^ 24" by auto
  have "real A \<noteq> 0" using n1 by simp
  then have f: "float_of_double (ddiv (Num 1) (Num (real A))) = Num v"
    by (simp add: ddiv_def x_def[symmetric] y(1) v)
  have "\<bar>v - x\<bar> \<le> \<bar>v - y\<bar> + \<bar>y - x\<bar>" by simp
  also have "\<dots> \<le> y / 2 ^ 24 + x / 2 ^ 53" using ve ye y(2) by simp
  also have "\<dots> \<le> (x + x / 2 ^ 53) / 2 ^ 24 + x / 2 ^ 53"
  proof -
    have "y \<le> x + x / 2 ^ 53" using ye by linarith
    then have "y / 2 ^ 24 \<le> (x + x / 2 ^ 53) / 2 ^ 24" by (intro divide_right_mono) simp_all
    then show ?thesis by simp
  qed
  also have "\<dots> \<le> x / 2 ^ 23" using xpos by (simp add: field_simps)
  finally show ?thesis using f unfolding x_def by blast
qed

text \<open>
  C6. For a trainable whose \<open>cum_r_plus\<close> has the size the constructor gave it, and
  every hand \<open>h\<close>: let \<open>S\<close> be the sum of \<open>cum_r_plus[a,h]\<close> over the actions as the code
  accumulates it in single precision, and \<open>T\<close> the exact sum. For every action,
  \<open>getAverageStrategy\<close> returns the single-precision quotient \<open>cum_r_plus[a,h] / S\<close> if
  \<open>S\<close> is nonzero, and otherwise the double quotient \<open>1.0 / A\<close> converted to float. If the
  entries of the column are nonnegative, \<open>A \<le> 2^20\<close> and \<open>2^-126 \<le> T \<le> 2^100\<close>, every
  returned entry is a number within \<open>(cum_r_plus[a,h] / T) * A / 2^20 + 2^-150\<close> of
  \<open>cum_r_plus[a,h] / T\<close>, and the returned entries of the hand sum to 1 within
  \<open>A / 2^20\<close>. If the column is zero and \<open>1 \<le> A \<le> 2^20\<close>, the returned entries are one
  number, within \<open>(1/A) / 2^23\<close> of \<open>1/A\<close>.
\<close>

theorem getAverageStrategy_rounded:
  assumes len: "length (cum_r_plus tr) = action_number tr * card_number tr"
      and h: "h < card_number tr"
  shows "let A = action_number tr; H = card_number tr;
             c = (\<lambda>a. cum_r_plus tr ! (a * H + h));
             S = fsum (map (\<lambda>a. Num (c a)) [0..<A]);
             T = (\<Sum>a<A. c a)
         in (\<forall>a<A. getAverageStrategy tr ! (a * H + h) =
                     (if float_to_bool S then fdiv (Num (c a)) S
                      else float_of_double (ddiv (Num 1) (Num (real A))))) \<and>
            ((\<forall>a<A. 0 \<le> c a) \<and> A \<le> 2 ^ 20 \<and> 1 / 2 ^ 126 \<le> T \<and> T \<le> 2 ^ 100 \<longrightarrow>
               (\<exists>q. (\<forall>a<A. getAverageStrategy tr ! (a * H + h) = Num (q a) \<and>
                             \<bar>q a - c a / T\<bar> \<le> c a / T * (real A / 2 ^ 20) + 1 / 2 ^ 150) \<and>
                    \<bar>(\<Sum>a<A. q a) - 1\<bar> \<le> real A / 2 ^ 20)) \<and>
            ((\<forall>a<A. c a = 0) \<and> 1 \<le> A \<and> A \<le> 2 ^ 20 \<longrightarrow>
               (\<exists>v. (\<forall>a<A. getAverageStrategy tr ! (a * H + h) = Num v) \<and>
                    \<bar>v - 1 / real A\<bar> \<le> 1 / real A / 2 ^ 23))"
proof -
  let ?A = "action_number tr" and ?H = "card_number tr"
  let ?c = "\<lambda>a. cum_r_plus tr ! (a * ?H + h)"
  let ?S = "fsum (map (\<lambda>a. Num (?c a)) [0..<?A])"
  let ?T = "\<Sum>a<?A. ?c a"
  have nth: "getAverageStrategy tr ! (a * ?H + h) =
               (if float_to_bool ?S then fdiv (Num (?c a)) ?S
                else float_of_double (ddiv (Num 1) (Num (real ?A))))" if "a < ?A" for a
    using h that by (rule getAverageStrategy_nth)
  have P2: "\<exists>q. (\<forall>a<?A. getAverageStrategy tr ! (a * ?H + h) = Num (q a) \<and>
                     \<bar>q a - ?c a / ?T\<bar> \<le> ?c a / ?T * (real ?A / 2 ^ 20) + 1 / 2 ^ 150) \<and>
               \<bar>(\<Sum>a<?A. q a) - 1\<bar> \<le> real ?A / 2 ^ 20"
    if nonneg: "\<forall>a<?A. 0 \<le> ?c a" and A: "?A \<le> 2 ^ 20"
      and T1: "1 / 2 ^ 126 \<le> ?T" and T2: "?T \<le> 2 ^ 100"
  proof -
    from average_column_error[of ?A ?c, OF nonneg A T1 T2]
    obtain s q where s: "?S = Num s" "s \<noteq> 0"
      and q: "\<forall>a<?A. fdiv (Num (?c a)) (Num s) = Num (q a) \<and>
                 \<bar>q a - ?c a / ?T\<bar> \<le> ?c a / ?T * (12 * real ?A / 2 ^ 24) + 1 / 2 ^ 150"
      by blast
    have Tpos: "0 < ?T" using T1 by (rule less_le_trans[rotated]) simp
    have b: "float_to_bool ?S" using s by (simp add: float_to_bool_def)
    have v: "getAverageStrategy tr ! (a * ?H + h) = Num (q a)" if "a < ?A" for a
      using nth[OF that] b q that by (simp add: s(1))
    have e: "\<bar>q a - ?c a / ?T\<bar> \<le> ?c a / ?T * (real ?A / 2 ^ 20) + 1 / 2 ^ 150" if "a < ?A" for a
    proof -
      have r: "0 \<le> ?c a / ?T" using nonneg that Tpos by simp
      have "12 * real ?A / 2 ^ 24 \<le> real ?A / 2 ^ 20" by simp
      then have "?c a / ?T * (12 * real ?A / 2 ^ 24) \<le> ?c a / ?T * (real ?A / 2 ^ 20)"
        using r by (rule mult_left_mono)
      then show ?thesis using q that by fastforce
    qed
    have "\<forall>a<?A. \<bar>q a - ?c a / ?T\<bar> \<le> ?c a / ?T * (12 * real ?A / 2 ^ 24) + 1 / 2 ^ 150"
      using q by simp
    from average_column_sum[OF Tpos this]
    have "\<bar>(\<Sum>a<?A. q a) - 1\<bar> \<le> real ?A / 2 ^ 20" .
    then show ?thesis using v e by blast
  qed
  have P3: "\<exists>v. (\<forall>a<?A. getAverageStrategy tr ! (a * ?H + h) = Num v) \<and>
               \<bar>v - 1 / real ?A\<bar> \<le> 1 / real ?A / 2 ^ 23"
    if z: "\<forall>a<?A. ?c a = 0" and A: "1 \<le> ?A" "?A \<le> 2 ^ 20"
  proof -
    have "map (\<lambda>a. Num (?c a)) [0..<?A] = map (\<lambda>a. Num 0) [0..<?A]"
      using z by simp
    then have "?S = Num 0" by (simp only: fsum_zeros)
    then have b: "\<not> float_to_bool ?S" by (simp add: float_to_bool_def)
    from uniform_fallback_error[OF A] obtain v
      where v: "float_of_double (ddiv (Num 1) (Num (real ?A))) = Num v"
        "\<bar>v - 1 / real ?A\<bar> \<le> 1 / real ?A / 2 ^ 23" by blast
    have "getAverageStrategy tr ! (a * ?H + h) = Num v" if "a < ?A" for a
      using nth[OF that] b v(1) by simp
    then show ?thesis using v(2) by blast
  qed
  show ?thesis unfolding Let_def using nth P2 P3 by blast
qed

theorem getAverageStrategy_rounded_witness:
  "length (cum_r_plus (new_DiscountedCfrTrainable 2 1 (3/2) 0 2 1\<lparr>cum_r_plus := [1, 3]\<rparr>)) = 2 * 1 \<and>
   (0::nat) < 1 \<and>
   getAverageStrategy (new_DiscountedCfrTrainable 2 1 (3/2) 0 2 1\<lparr>cum_r_plus := [1, 3]\<rparr>) ! 0 = Num (1 / 4) \<and>
   getAverageStrategy (new_DiscountedCfrTrainable 2 1 (3/2) 0 2 1\<lparr>cum_r_plus := [1, 3]\<rparr>) ! 1 = Num (3 / 4) \<and>
   (\<exists>q. getAverageStrategy (new_DiscountedCfrTrainable 2 1 (3/2) 0 2 1\<lparr>cum_r_plus := [1, 3]\<rparr>) ! 0 = Num (q 0) \<and>
        getAverageStrategy (new_DiscountedCfrTrainable 2 1 (3/2) 0 2 1\<lparr>cum_r_plus := [1, 3]\<rparr>) ! 1 = Num (q 1) \<and>
        \<bar>q (0::nat) + q 1 - 1\<bar> \<le> 2 / 2 ^ 20) \<and>
   (\<exists>v. getAverageStrategy (new_DiscountedCfrTrainable 2 1 (3/2) 0 2 1) ! 0 = Num v \<and>
        getAverageStrategy (new_DiscountedCfrTrainable 2 1 (3/2) 0 2 1) ! 1 = Num v \<and>
        \<bar>v - 1 / 2\<bar> \<le> 1 / 2 / 2 ^ 23)"
proof -
  let ?tr = "new_DiscountedCfrTrainable 2 1 (3/2) 0 2 1\<lparr>cum_r_plus := [1, 3]\<rparr>"
  let ?tz = "new_DiscountedCfrTrainable 2 1 (3/2) 0 2 1"
  have f: "action_number ?tr = 2" "card_number ?tr = 1" "cum_r_plus ?tr = [1, 3]"
    "action_number ?tz = 2" "card_number ?tz = 1" "cum_r_plus ?tz = [0, 0]"
    by (simp_all add: new_DiscountedCfrTrainable_def numeral_2_eq_2)
  have up: "[0..<2] = [0, 1]" by (simp add: numeral_2_eq_2)
  have two: "{..<2::nat} = {0, 1}" by auto
  have h1: "length (cum_r_plus ?tr) = action_number ?tr * card_number ?tr"
    and h3: "0 < card_number ?tr"
    unfolding f by simp_all
  have z1: "length (cum_r_plus ?tz) = action_number ?tz * card_number ?tz"
    and z3: "0 < card_number ?tz"
    unfolding f by simp_all
  have S: "fsum [Num 1, Num 3] = Num 4" by (simp add: float_eval)
  have q: "fdiv (Num 1) (Num 4) = Num (1 / 4)" "fdiv (Num 3) (Num 4) = Num (3 / 4)"
    by (simp_all add: float_eval)
  have a: "\<forall>a<2. getAverageStrategy ?tr ! (a * 1 + 0) =
             (if float_to_bool (Num 4) then fdiv (Num ([1, 3] ! (a * 1 + 0))) (Num 4)
              else float_of_double (ddiv (Num 1) (Num (real 2))))"
    using getAverageStrategy_rounded[OF h1 h3, unfolded Let_def, THEN conjunct1]
    unfolding f up list.map by (simp add: S)
  have a0: "getAverageStrategy ?tr ! 0 = Num (1 / 4)"
    using a[rule_format, of 0] by (simp add: float_to_bool_def q)
  have a1: "getAverageStrategy ?tr ! 1 = Num (3 / 4)"
    using a[rule_format, of 1] by (simp add: float_to_bool_def q)
  have p2: "(\<forall>a<action_number ?tr. 0 \<le> cum_r_plus ?tr ! (a * card_number ?tr + 0)) \<and>
            action_number ?tr \<le> 2 ^ 20 \<and>
            1 / 2 ^ 126 \<le> (\<Sum>a<action_number ?tr. cum_r_plus ?tr ! (a * card_number ?tr + 0)) \<and>
            (\<Sum>a<action_number ?tr. cum_r_plus ?tr ! (a * card_number ?tr + 0)) \<le> 2 ^ 100"
  proof (intro conjI)
    show "\<forall>a<action_number ?tr. 0 \<le> cum_r_plus ?tr ! (a * card_number ?tr + 0)"
      unfolding f by (auto simp: less_Suc_eq numeral_2_eq_2)
    show "action_number ?tr \<le> 2 ^ 20" unfolding f by simp
    show "1 / 2 ^ 126 \<le> (\<Sum>a<action_number ?tr. cum_r_plus ?tr ! (a * card_number ?tr + 0))"
      unfolding f two by simp
    show "(\<Sum>a<action_number ?tr. cum_r_plus ?tr ! (a * card_number ?tr + 0)) \<le> 2 ^ 100"
      unfolding f two by simp
  qed
  from getAverageStrategy_rounded[OF h1 h3, unfolded Let_def, THEN conjunct2, THEN conjunct1,
      THEN mp, OF p2]
  obtain q where q: "\<forall>a<2. getAverageStrategy ?tr ! (a * 1 + 0) = Num (q a)"
    "\<bar>(\<Sum>a<2. q a) - 1\<bar> \<le> real 2 / 2 ^ 20"
    unfolding f by blast
  have b: "\<exists>q. getAverageStrategy ?tr ! 0 = Num (q 0) \<and> getAverageStrategy ?tr ! 1 = Num (q 1) \<and>
        \<bar>q (0::nat) + q 1 - 1\<bar> \<le> 2 / 2 ^ 20"
    using q(1)[rule_format, of 0] q(1)[rule_format, of 1] q(2) unfolding two
    by (intro exI[of _ q]) simp
  have p3: "(\<forall>a<action_number ?tz. cum_r_plus ?tz ! (a * card_number ?tz + 0) = 0) \<and>
            1 \<le> action_number ?tz \<and> action_number ?tz \<le> 2 ^ 20"
  proof (intro conjI)
    show "\<forall>a<action_number ?tz. cum_r_plus ?tz ! (a * card_number ?tz + 0) = 0"
      unfolding f by (auto simp: less_Suc_eq numeral_2_eq_2)
    show "1 \<le> action_number ?tz" unfolding f by simp
    show "action_number ?tz \<le> 2 ^ 20" unfolding f by simp
  qed
  from getAverageStrategy_rounded[OF z1 z3, unfolded Let_def, THEN conjunct2, THEN conjunct2,
      THEN mp, OF p3]
  obtain v where v: "\<forall>a<2. getAverageStrategy ?tz ! (a * 1 + 0) = Num v"
    "\<bar>v - 1 / real 2\<bar> \<le> 1 / real 2 / 2 ^ 23"
    unfolding f by blast
  have c: "\<exists>v. getAverageStrategy ?tz ! 0 = Num v \<and> getAverageStrategy ?tz ! 1 = Num v \<and>
        \<bar>v - 1 / 2\<bar> \<le> 1 / 2 / 2 ^ 23"
    using v(1)[rule_format, of 0] v(1)[rule_format, of 1] v(2)
    by (intro exI[of _ v]) simp
  from h1 have l: "length (cum_r_plus ?tr) = 2 * 1" unfolding f .
  show ?thesis by (intro conjI l a0 a1 b c) simp
qed

text \<open>
  C6 as stated fails: the equalities hold up to rounding only. With three actions, one
  hand and \<open>cum_r_plus = [1, 1, 1]\<close> every returned entry is the float nearest to \<open>1/3\<close>,
  \<open>11184811 / 33554432\<close>, and the three entries sum to \<open>1 + 2^-25\<close>; on a fresh
  trainable with three actions the entries are that same float, not \<open>1/3\<close>.
\<close>

theorem getAverageStrategy_exact_counterexample:
  "getAverageStrategy (new_DiscountedCfrTrainable 3 1 (3/2) 0 2 1\<lparr>cum_r_plus := [1, 1, 1]\<rparr>) =
     [Num (11184811 / 33554432), Num (11184811 / 33554432), Num (11184811 / 33554432)] \<and>
   (11184811 / 33554432 + 11184811 / 33554432 + 11184811 / 33554432 :: real) = 1 + 1 / 2 ^ 25 \<and>
   getAverageStrategy (new_DiscountedCfrTrainable 3 1 (3/2) 0 2 1) =
     [Num (11184811 / 33554432), Num (11184811 / 33554432), Num (11184811 / 33554432)] \<and>
   (11184811 / 33554432 :: real) \<noteq> 1 / 3"
proof -
  let ?tr = "new_DiscountedCfrTrainable 3 1 (3/2) 0 2 1\<lparr>cum_r_plus := [1, 1, 1]\<rparr>"
  let ?tz = "new_DiscountedCfrTrainable 3 1 (3/2) 0 2 1"
  have f: "action_number ?tr = 3" "card_number ?tr = 1" "cum_r_plus ?tr = [1, 1, 1]"
    "action_number ?tz = 3" "card_number ?tz = 1" "cum_r_plus ?tz = [0, 0, 0]"
    by (simp_all add: new_DiscountedCfrTrainable_def numeral_3_eq_3)
  have up: "[0..<3] = [0, 1, 2]" by (simp add: numeral_3_eq_3)
  have S: "fsum [Num 1, Num 1, Num 1] = Num 3" by (simp add: float_eval)
  have Z: "fsum [Num 0, Num 0, Num 0] = Num 0" by (simp add: float_eval)
  have q: "fdiv (Num 1) (Num 3) = Num (11184811 / 33554432)" by (simp add: float_eval)
  have u: "float_of_double (ddiv (Num 1) (Num 3)) = Num (11184811 / 33554432)"
    by (simp add: float_eval)
  have a: "getAverageStrategy ?tr =
     [Num (11184811 / 33554432), Num (11184811 / 33554432), Num (11184811 / 33554432)]"
    unfolding getAverageStrategy_unfold f by (simp add: up S q float_to_bool_def)
  have b: "getAverageStrategy ?tz =
     [Num (11184811 / 33554432), Num (11184811 / 33554432), Num (11184811 / 33554432)]"
    unfolding getAverageStrategy_unfold f by (simp add: up Z u float_to_bool_def)
  show ?thesis by (intro conjI a b) simp_all
qed

section \<open>Terminal nodes\<close>

lemma fold_oppo_sum_step:
  assumes "n \<le> length oppo_hand"
      and "\<forall>j<n. hand_ok (oppo_hand ! j)"
      and "length cs = 52"
  shows "fold (oppo_sum_step oppo_hand reach) [0..<n] (s0, cs) =
           (foldl fadd s0 (map (\<lambda>j. reach ! j) [0..<n]),
            map (\<lambda>c. foldl fadd (cs ! c)
                        (map (\<lambda>j. reach ! j) (filter (\<lambda>j. has_card (oppo_hand ! j) c) [0..<n])))
              [0..<52])"
  using assms(1,2)
proof (induction n)
  case 0
  show ?case using assms(3) by (auto intro!: nth_equalityI)
next
  case (Suc n)
  let ?F = "\<lambda>n c. foldl fadd (cs ! c)
                        (map (\<lambda>j. reach ! j) (filter (\<lambda>j. has_card (oppo_hand ! j) c) [0..<n]))"
  let ?cs = "map (?F n) [0..<52]"
  let ?c1 = "card1 (oppo_hand ! n)" and ?c2 = "card2 (oppo_hand ! n)"
  have IH: "fold (oppo_sum_step oppo_hand reach) [0..<n] (s0, cs) =
              (foldl fadd s0 (map (\<lambda>j. reach ! j) [0..<n]), ?cs)"
    using Suc by simp
  have ok: "?c1 < 52" "?c2 < 52" "?c1 \<noteq> ?c2"
    using Suc.prems(2) by (auto simp: hand_ok_def)
  have "fold (oppo_sum_step oppo_hand reach) [0..<Suc n] (s0, cs) =
          oppo_sum_step oppo_hand reach n (foldl fadd s0 (map (\<lambda>j. reach ! j) [0..<n]), ?cs)"
    by (simp add: IH)
  also have "\<dots> = (foldl fadd s0 (map (\<lambda>j. reach ! j) [0..<Suc n]),
       (?cs[?c1 := fadd (?cs ! ?c1) (reach ! n)])
          [?c2 := fadd ((?cs[?c1 := fadd (?cs ! ?c1) (reach ! n)]) ! ?c2) (reach ! n)])"
    by (simp add: oppo_sum_step_def Let_def)
  also have "(?cs[?c1 := fadd (?cs ! ?c1) (reach ! n)])
          [?c2 := fadd ((?cs[?c1 := fadd (?cs ! ?c1) (reach ! n)]) ! ?c2) (reach ! n)] =
      map (?F (Suc n)) [0..<52]"
  proof (rule nth_equalityI)
    show "length ((?cs[?c1 := fadd (?cs ! ?c1) (reach ! n)])
          [?c2 := fadd ((?cs[?c1 := fadd (?cs ! ?c1) (reach ! n)]) ! ?c2) (reach ! n)]) =
          length (map (?F (Suc n)) [0..<52])"
      by simp
  next
    fix c
    assume "c < length ((?cs[?c1 := fadd (?cs ! ?c1) (reach ! n)])
          [?c2 := fadd ((?cs[?c1 := fadd (?cs ! ?c1) (reach ! n)]) ! ?c2) (reach ! n)])"
    then have c: "c < 52" by simp
    show "((?cs[?c1 := fadd (?cs ! ?c1) (reach ! n)])
          [?c2 := fadd ((?cs[?c1 := fadd (?cs ! ?c1) (reach ! n)]) ! ?c2) (reach ! n)]) ! c =
          map (?F (Suc n)) [0..<52] ! c"
      using c ok by (auto simp: nth_list_update has_card_def)
  qed
  finally show ?case .
qed

lemma fst_fold_skip_write:
  assumes "n \<le> length p"
    and step: "\<And>i st. fst (step i st) = (if skip i then fst st else (fst st)[i := v i])"
  shows "fst (fold step [0..<n] (p, e)) =
           map (\<lambda>i. if i < n \<and> \<not> skip i then v i else p ! i) [0..<length p]"
  using assms(1)
proof (induction n)
  case 0
  show ?case by (auto intro!: nth_equalityI)
next
  case (Suc n)
  have IH: "fst (fold step [0..<n] (p, e)) =
           map (\<lambda>i. if i < n \<and> \<not> skip i then v i else p ! i) [0..<length p]"
    using Suc by simp
  have "fst (fold step [0..<Suc n] (p, e)) = fst (step n (fold step [0..<n] (p, e)))"
    by simp
  also have "\<dots> = (if skip n then fst (fold step [0..<n] (p, e))
                    else (fst (fold step [0..<n] (p, e)))[n := v n])"
    by (rule step)
  also have "\<dots> = map (\<lambda>i. if i < Suc n \<and> \<not> skip i then v i else p ! i) [0..<length p]"
    unfolding IH using Suc.prems
    by (auto intro!: nth_equalityI simp: nth_list_update less_Suc_eq)
  finally show ?case .
qed

lemma hand_index_range:
  "hand_index h gs k = - 1 \<or> (int k \<le> hand_index h gs k \<and> hand_index h gs k < int k + int (length gs))"
  by (induction gs arbitrary: k) (auto split: if_splits, force+)

lemma hand_index_none: "hand_index h gs k = - 1 \<longleftrightarrow> (\<forall>g \<in> set gs. \<not> same_hand h g)"
proof (induction gs arbitrary: k)
  case Nil
  show ?case by simp
next
  case (Cons g gs)
  show ?case using Cons[of "Suc k"] by auto
qed

lemma hand_index_some:
  "hand_index h gs k \<noteq> - 1 \<Longrightarrow>
   \<exists>j<length gs. hand_index h gs k = int (k + j) \<and> same_hand h (gs ! j)"
proof (induction gs arbitrary: k)
  case Nil
  then show ?case by simp
next
  case (Cons g gs)
  show ?case
  proof (cases "same_hand h g")
    case True
    then show ?thesis by (intro exI[of _ 0]) simp
  next
    case False
    with Cons.prems have "hand_index h gs (Suc k) \<noteq> - 1" by simp
    from Cons.IH[OF this] obtain j where "j < length gs"
      "hand_index h gs (Suc k) = int (Suc k + j)" "same_hand h (gs ! j)" by blast
    then show ?thesis using False by (intro exI[of _ "Suc j"]) simp
  qed
qed

lemma same_hand_trans: "same_hand h a \<Longrightarrow> same_hand h b \<Longrightarrow> same_hand a b"
  by (auto simp: same_hand_def)

lemma both_cards_same_hand:
  "card1 h \<noteq> card2 h \<Longrightarrow> has_card g (card1 h) \<and> has_card g (card2 h) \<longleftrightarrow> same_hand h g"
  by (auto simp: has_card_def same_hand_def)

lemma identical_hand_count:
  assumes uniq: "\<forall>j<length gs. \<forall>k<length gs. j \<noteq> k \<longrightarrow> \<not> same_hand (gs ! j) (gs ! k)"
  shows "card {j. j < length gs \<and> same_hand h (gs ! j)} = (if hand_index h gs 0 = - 1 then 0 else 1)"
proof (cases "hand_index h gs 0 = - 1")
  case True
  then have "\<forall>g \<in> set gs. \<not> same_hand h g" by (simp add: hand_index_none)
  then have "{j. j < length gs \<and> same_hand h (gs ! j)} = {}" by auto
  then show ?thesis using True by simp
next
  case False
  from hand_index_some[OF False] obtain j0 where j0: "j0 < length gs" "same_hand h (gs ! j0)"
    by auto
  have "{j. j < length gs \<and> same_hand h (gs ! j)} = {j0}"
  proof (intro set_eqI iffI)
    fix j assume "j \<in> {j. j < length gs \<and> same_hand h (gs ! j)}"
    then have j: "j < length gs" "same_hand h (gs ! j)" by simp_all
    have "same_hand (gs ! j) (gs ! j0)" using j(2) j0(2) by (rule same_hand_trans)
    then have "j = j0" using uniq[rule_format, OF j(1) j0(1)] by blast
    then show "j \<in> {j0}" by simp
  next
    fix j assume "j \<in> {j0}"
    then show "j \<in> {j. j < length gs \<and> same_hand h (gs ! j)}" using j0 by simp
  qed
  then show ?thesis using False by simp
qed

lemma terminalUtility_payoff:
  assumes pl: "player = 0 \<or> player = 1"
      and ok: "\<forall>g \<in> set (ranges s ! nat (1 - player)). hand_ok g"
      and i: "i < length (ranges s ! nat player)"
      and hi: "hand_ok (ranges s ! nat player ! i)"
      and nb: "\<not> boardsHasIntercept current_board (toBoardLong (ranges s ! nat player ! i))"
  shows "\<exists>res. terminalUtility s player node_payoffs reach_prob current_board = Inr res \<and>
          length (payoffs res) = length (ranges s ! nat player) \<and>
          payoffs res ! i =
            fmul (node_payoffs ! nat player)
              (fadd (fsub (fsub
                 (fsum (map (\<lambda>j. reach_prob ! j) [0..<length (ranges s ! nat (1 - player))]))
                 (fsum (map (\<lambda>j. reach_prob ! j)
                    (filter (\<lambda>j. has_card (ranges s ! nat (1 - player) ! j)
                                   (card1 (ranges s ! nat player ! i)))
                       [0..<length (ranges s ! nat (1 - player))]))))
                 (fsum (map (\<lambda>j. reach_prob ! j)
                    (filter (\<lambda>j. has_card (ranges s ! nat (1 - player) ! j)
                                   (card2 (ranges s ! nat player ! i)))
                       [0..<length (ranges s ! nat (1 - player))]))))
                 (if indPlayer2Player s player (1 - player) i = - 1 then Num 0
                  else reach_prob ! nat (indPlayer2Player s player (1 - player) i)))"
proof -
  let ?ph = "ranges s ! nat player" and ?oh = "ranges s ! nat (1 - player)"
  let ?P = "node_payoffs ! nat player"
  have ph: "playerHands s player = Inr ?ph" using pl by (auto simp: playerHands_def)
  have oh: "playerHands s (1 - player) = Inr ?oh" using pl by (auto simp: playerHands_def)
  let ?S = "foldl fadd (Num 0) (map (\<lambda>j. reach_prob ! j) [0..<length ?oh])"
  let ?C = "\<lambda>c. fsum (map (\<lambda>j. reach_prob ! j) (filter (\<lambda>j. has_card (?oh ! j) c) [0..<length ?oh]))"
  let ?CS = "map (\<lambda>c. foldl fadd (replicate 52 (Num 0) ! c)
                 (map (\<lambda>j. reach_prob ! j) (filter (\<lambda>j. has_card (?oh ! j) c) [0..<length ?oh])))
               [0..<52]"
  have sums: "fold (oppo_sum_step ?oh reach_prob) [0..<length ?oh] (Num 0, replicate 52 (Num 0)) =
                (?S, ?CS)"
    by (rule fold_oppo_sum_step) (use ok in auto)
  let ?skip = "\<lambda>i. boardsHasIntercept current_board (boardInts2long [card1 (?ph ! i), card2 (?ph ! i)])"
  let ?v = "\<lambda>i. fmul ?P (fadd (fsub (fsub ?S (?CS ! card1 (?ph ! i))) (?CS ! card2 (?ph ! i)))
              (if indPlayer2Player s player (1 - player) i = - 1 then Num 0
               else reach_prob ! nat (indPlayer2Player s player (1 - player) i)))"
  let ?e0 = "if enable_equity s then replicate (length ?ph) (Num 0) else []"
  let ?res = "fold (terminal_step s player ?P ?ph reach_prob current_board ?S ?CS)
                 [0..<length ?ph] (replicate (length ?ph) (Num 0), ?e0)"
  have r: "terminalUtility s player node_payoffs reach_prob current_board =
             Inr \<lparr>payoffs = fst ?res, equity = snd ?res\<rparr>"
    unfolding terminalUtility_def Let_def ph oh sum.case sums fst_conv snd_conv ..
  have f: "fst ?res = map (\<lambda>i. if i < length ?ph \<and> \<not> ?skip i then ?v i
                                else replicate (length ?ph) (Num 0) ! i)
                        [0..<length (replicate (length ?ph) (Num 0))]"
    by (rule fst_fold_skip_write) (simp_all add: terminal_step_def Let_def)
  have c: "card1 (?ph ! i) < 52" "card2 (?ph ! i) < 52" using hi by (simp_all add: hand_ok_def)
  have ns: "\<not> ?skip i" using nb by (simp add: toBoardLong_def)
  have cs: "?CS ! c = ?C c" if "c < 52" for c using that by (simp add: fsum_def)
  have "fst ?res ! i = ?v i" unfolding f using i ns by simp
  also have "\<dots> = fmul ?P (fadd (fsub (fsub (fsum (map (\<lambda>j. reach_prob ! j) [0..<length ?oh]))
                 (?C (card1 (?ph ! i)))) (?C (card2 (?ph ! i))))
              (if indPlayer2Player s player (1 - player) i = - 1 then Num 0
               else reach_prob ! nat (indPlayer2Player s player (1 - player) i)))"
    unfolding cs[OF c(1)] cs[OF c(2)] fsum_def ..
  finally have p: "fst ?res ! i = fmul ?P (fadd (fsub (fsub (fsum (map (\<lambda>j. reach_prob ! j) [0..<length ?oh]))
                 (?C (card1 (?ph ! i)))) (?C (card2 (?ph ! i))))
              (if indPlayer2Player s player (1 - player) i = - 1 then Num 0
               else reach_prob ! nat (indPlayer2Player s player (1 - player) i)))" .
  have l: "length (fst ?res) = length ?ph" unfolding f by simp
  show ?thesis unfolding r using p l by simp
qed

lemma fsub_Num: "fsub (Num a) (Num b) = fl32 (a - b)"
  by (simp add: fsub_def)

lemma fsum_uniform:
  assumes "\<forall>x \<in> set xs. x = Num r"
      and "\<forall>j\<le>length xs. fl32 (real j * r) = Num (real j * r)"
  shows "fsum xs = Num (real (length xs) * r)"
  using assms
proof (induction xs rule: rev_induct)
  case Nil
  then show ?case by (simp add: fsum_def)
next
  case (snoc x xs)
  have IH: "fsum xs = Num (real (length xs) * r)" using snoc by simp
  have x: "x = Num r" using snoc.prems(1) by simp
  have e: "real (length xs) * r + r = real (Suc (length xs)) * r" by (simp add: algebra_simps)
  have "fsum (xs @ [x]) = fl32 (real (length xs) * r + r)"
    by (simp add: fsum_snoc IH x)
  also have "\<dots> = Num (real (Suc (length xs)) * r)"
    unfolding e using snoc.prems(2)[rule_format, of "Suc (length xs)"]
    by (simp del: of_nat_Suc)
  finally show ?case by (simp del: of_nat_Suc)
qed

lemma length_filter_upt: "length (filter P [0..<n]) = card {j. j < n \<and> P j}"
proof -
  have "card (set (filter P [0..<n])) = length (filter P [0..<n])"
    by (rule distinct_card) simp
  moreover have "set (filter P [0..<n]) = {j. j < n \<and> P j}" by auto
  ultimately show ?thesis by simp
qed

lemma card_filter_le: "card {j. j < n \<and> P j} \<le> (n::nat)"
proof -
  have "card {j. j < n \<and> P j} \<le> card {..<n}" by (intro card_mono) auto
  then show ?thesis by simp
qed

lemma fsum_uniform_filter:
  assumes uni: "\<forall>j<n. reach ! j = Num r"
      and rep: "\<forall>j\<le>n. fl32 (real j * r) = Num (real j * r)"
  shows "fsum (map (\<lambda>j. reach ! j) (filter P [0..<n])) = Num (real (card {j. j < n \<and> P j}) * r)"
proof -
  have l: "length (map (\<lambda>j. reach ! j) (filter P [0..<n])) = card {j. j < n \<and> P j}"
    by (simp add: length_filter_upt)
  have "fsum (map (\<lambda>j. reach ! j) (filter P [0..<n])) =
        Num (real (length (map (\<lambda>j. reach ! j) (filter P [0..<n]))) * r)"
  proof (rule fsum_uniform)
    show "\<forall>x \<in> set (map (\<lambda>j. reach ! j) (filter P [0..<n])). x = Num r" using uni by auto
    show "\<forall>j\<le>length (map (\<lambda>j. reach ! j) (filter P [0..<n])). fl32 (real j * r) = Num (real j * r)"
      unfolding l using rep card_filter_le[of n P] by auto
  qed
  then show ?thesis unfolding l .
qed

lemma representable_int:
  assumes rep: "\<forall>j\<le>n. fl32 (real j * r) = Num (real j * r)"
      and m: "- 1 \<le> m" "m \<le> int n" "0 \<le> m \<or> 1 \<le> n"
  shows "fl32 (of_int m * r) = Num (of_int m * r)"
proof (cases "0 \<le> m")
  case True
  then have "nat m \<le> n" using m(2) by simp
  then have "fl32 (real (nat m) * r) = Num (real (nat m) * r)" using rep by simp
  then show ?thesis using True by simp
next
  case False
  then have m1: "m = - 1" and n: "1 \<le> n" using m by auto
  have "fl32 (real 1 * r) = Num (real 1 * r)" using rep n by blast
  then have "fl32 r = Num r" by simp
  then have "fl32 (- r) = Num (- r)" by (simp add: fl32_minus)
  then show ?thesis unfolding m1 by simp
qed

lemma uniform_blocker_count:
  assumes uni: "\<forall>j<length gs. reach ! j = Num r"
      and uniq: "\<forall>j<length gs. \<forall>k<length gs. j \<noteq> k \<longrightarrow> \<not> same_hand (gs ! j) (gs ! k)"
      and h: "card1 h \<noteq> card2 h"
      and rep: "\<forall>j\<le>length gs. fl32 (real j * r) = Num (real j * r)"
  shows "fadd (fsub (fsub
            (fsum (map (\<lambda>j. reach ! j) [0..<length gs]))
            (fsum (map (\<lambda>j. reach ! j) (filter (\<lambda>j. has_card (gs ! j) (card1 h)) [0..<length gs]))))
            (fsum (map (\<lambda>j. reach ! j) (filter (\<lambda>j. has_card (gs ! j) (card2 h)) [0..<length gs]))))
            (if hand_index h gs 0 = - 1 then Num 0 else reach ! nat (hand_index h gs 0)) =
         Num (r * (real (length gs) -
              real (card {j. j < length gs \<and> (has_card (gs ! j) (card1 h) \<or> has_card (gs ! j) (card2 h))})))"
proof -
  let ?n = "length gs"
  let ?A1 = "{j. j < ?n \<and> has_card (gs ! j) (card1 h)}"
  let ?A2 = "{j. j < ?n \<and> has_card (gs ! j) (card2 h)}"
  let ?U = "{j. j < ?n \<and> (has_card (gs ! j) (card1 h) \<or> has_card (gs ! j) (card2 h))}"
  let ?I = "{j. j < ?n \<and> same_hand h (gs ! j)}"
  define k1 where "k1 = card ?A1"
  define k2 where "k2 = card ?A2"
  define ku where "ku = card ?U"
  define e where "e = card ?I"
  have S: "fsum (map (\<lambda>j. reach ! j) [0..<?n]) = Num (real ?n * r)"
    using fsum_uniform_filter[OF uni rep, of "\<lambda>j. True"] by simp
  have C1: "fsum (map (\<lambda>j. reach ! j) (filter (\<lambda>j. has_card (gs ! j) (card1 h)) [0..<?n])) =
            Num (real k1 * r)"
    unfolding k1_def by (rule fsum_uniform_filter[OF uni rep])
  have C2: "fsum (map (\<lambda>j. reach ! j) (filter (\<lambda>j. has_card (gs ! j) (card2 h)) [0..<?n])) =
            Num (real k2 * r)"
    unfolding k2_def by (rule fsum_uniform_filter[OF uni rep])
  have e01: "e = (if hand_index h gs 0 = - 1 then 0 else 1)"
    unfolding e_def by (rule identical_hand_count[OF uniq])
  have plus: "(if hand_index h gs 0 = - 1 then Num 0 else reach ! nat (hand_index h gs 0)) =
              Num (real e * r)"
  proof (cases "hand_index h gs 0 = - 1")
    case True
    then show ?thesis by (simp add: e01)
  next
    case False
    from hand_index_some[OF False] obtain j where "j < ?n" "hand_index h gs 0 = int (0 + j)"
      by blast
    then have "reach ! nat (hand_index h gs 0) = Num r" using uni by simp
    then show ?thesis using False by (simp add: e01)
  qed
  have int: "?A1 \<inter> ?A2 = ?I"
    using both_cards_same_hand[OF h] by auto
  have un: "?A1 \<union> ?A2 = ?U" by auto
  have "card (?A1 \<union> ?A2) + card (?A1 \<inter> ?A2) = card ?A1 + card ?A2"
    by (rule card_Un_Int[symmetric]) simp_all
  then have cnt: "ku + e = k1 + k2" unfolding int un k1_def k2_def ku_def e_def .
  have k1n: "k1 \<le> ?n" unfolding k1_def by (rule card_filter_le)
  have kun: "ku \<le> ?n" unfolding ku_def by (rule card_filter_le)
  have e1: "e \<le> 1" using e01 by simp
  have en: "e \<le> ?n"
    unfolding e_def by (rule card_filter_le)
  have s1: "fsub (Num (real ?n * r)) (Num (real k1 * r)) = Num (of_int (int ?n - int k1) * r)"
  proof -
    have "real ?n * r - real k1 * r = of_int (int ?n - int k1) * r" by (simp add: algebra_simps)
    then have "fsub (Num (real ?n * r)) (Num (real k1 * r)) = fl32 (of_int (int ?n - int k1) * r)"
      by (simp add: fsub_Num)
    also have "\<dots> = Num (of_int (int ?n - int k1) * r)"
      by (rule representable_int[OF rep]) (use k1n in auto)
    finally show ?thesis .
  qed
  have s2: "fsub (Num (of_int (int ?n - int k1) * r)) (Num (real k2 * r)) =
            Num (of_int (int ?n - int k1 - int k2) * r)"
  proof -
    have "of_int (int ?n - int k1) * r - real k2 * r = of_int (int ?n - int k1 - int k2) * r"
      by (simp add: algebra_simps)
    then have "fsub (Num (of_int (int ?n - int k1) * r)) (Num (real k2 * r)) =
               fl32 (of_int (int ?n - int k1 - int k2) * r)"
      by (simp add: fsub_Num)
    also have "\<dots> = Num (of_int (int ?n - int k1 - int k2) * r)"
    proof (rule representable_int[OF rep])
      show "- 1 \<le> int ?n - int k1 - int k2" using cnt kun e1 by linarith
      show "int ?n - int k1 - int k2 \<le> int ?n" by simp
      show "0 \<le> int ?n - int k1 - int k2 \<or> 1 \<le> ?n" using cnt kun e1 en by linarith
    qed
    finally show ?thesis .
  qed
  have s3: "fadd (Num (of_int (int ?n - int k1 - int k2) * r)) (Num (real e * r)) =
            Num (of_int (int ?n - int ku) * r)"
  proof -
    have "int ?n - int k1 - int k2 + int e = int ?n - int ku" using cnt by linarith
    then have "of_int (int ?n - int k1 - int k2) * r + real e * r = of_int (int ?n - int ku) * r"
      by (metis of_int_of_nat_eq of_int_add distrib_right)
    then have "fadd (Num (of_int (int ?n - int k1 - int k2) * r)) (Num (real e * r)) =
               fl32 (of_int (int ?n - int ku) * r)"
      by simp
    also have "\<dots> = Num (of_int (int ?n - int ku) * r)"
      by (rule representable_int[OF rep]) (use kun in auto)
    finally show ?thesis .
  qed
  have "of_int (int ?n - int ku) * r = r * (real ?n - real ku)" by simp
  then show ?thesis unfolding S C1 C2 plus s1 s2 s3 ku_def by simp
qed

text \<open>
  C3. At a terminal node with payoff \<open>P\<close> for the traversing player (player 0 or 1),
  with well-formed opponent hands, \<open>terminalUtility\<close> returns, for each well-formed
  player hand \<open>h\<close> that does not overlap the board,
  \<open>payoffs[h] = P * (((S - C1) - C2) + reach_probs[T(h)])\<close>, every operation being the
  single-precision one: \<open>S\<close> is the opponent reach accumulated over the opponent's range
  in its order, \<open>C1\<close> and \<open>C2\<close> are the reach accumulated over the opponent hands holding
  \<open>h\<close>'s first and second card, \<open>T(h)\<close> is the opponent's index of the identical hand,
  and the last term is 0 when there is none. With a uniform reach \<open>r\<close>, no hand twice in
  the opponent's range and every multiple \<open>j * r\<close>, \<open>j \<le> |range[oppo]|\<close>, a
  single-precision number, this is the single-precision product of \<open>P\<close> and
  \<open>r * (|range[oppo]| - number of opponent hands sharing a card with h)\<close>.
\<close>

theorem terminalUtility_blocker_formula:
  assumes pl: "player = 0 \<or> player = 1"
      and "length (ranges s) = 2"
      and "length reach_prob = length (ranges s ! nat (1 - player))"
      and ok: "\<forall>g \<in> set (ranges s ! nat (1 - player)). hand_ok g"
      and i: "i < length (ranges s ! nat player)"
      and hi: "hand_ok (ranges s ! nat player ! i)"
      and nb: "\<not> boardsHasIntercept current_board (toBoardLong (ranges s ! nat player ! i))"
  shows "\<exists>res. terminalUtility s player node_payoffs reach_prob current_board = Inr res \<and>
          length (payoffs res) = length (ranges s ! nat player) \<and>
          payoffs res ! i =
            fmul (node_payoffs ! nat player)
              (fadd (fsub (fsub
                 (fsum (map (\<lambda>j. reach_prob ! j) [0..<length (ranges s ! nat (1 - player))]))
                 (fsum (map (\<lambda>j. reach_prob ! j)
                    (filter (\<lambda>j. has_card (ranges s ! nat (1 - player) ! j)
                                   (card1 (ranges s ! nat player ! i)))
                       [0..<length (ranges s ! nat (1 - player))]))))
                 (fsum (map (\<lambda>j. reach_prob ! j)
                    (filter (\<lambda>j. has_card (ranges s ! nat (1 - player) ! j)
                                   (card2 (ranges s ! nat player ! i)))
                       [0..<length (ranges s ! nat (1 - player))]))))
                 (if indPlayer2Player s player (1 - player) i = - 1 then Num 0
                  else reach_prob ! nat (indPlayer2Player s player (1 - player) i))) \<and>
          ((\<forall>j<length (ranges s ! nat (1 - player)). reach_prob ! j = Num r) \<and>
           (\<forall>j<length (ranges s ! nat (1 - player)). \<forall>k<length (ranges s ! nat (1 - player)).
               j \<noteq> k \<longrightarrow> \<not> same_hand (ranges s ! nat (1 - player) ! j) (ranges s ! nat (1 - player) ! k)) \<and>
           (\<forall>j\<le>length (ranges s ! nat (1 - player)). fl32 (real j * r) = Num (real j * r))
           \<longrightarrow> payoffs res ! i =
                 fmul (node_payoffs ! nat player)
                   (Num (r *
                     (real (length (ranges s ! nat (1 - player))) -
                      real (card {j. j < length (ranges s ! nat (1 - player)) \<and>
                                     (has_card (ranges s ! nat (1 - player) ! j) (card1 (ranges s ! nat player ! i)) \<or>
                                      has_card (ranges s ! nat (1 - player) ! j) (card2 (ranges s ! nat player ! i)))})))))"
proof -
  let ?h = "ranges s ! nat player ! i" and ?oh = "ranges s ! nat (1 - player)"
  let ?E = "fadd (fsub (fsub
                 (fsum (map (\<lambda>j. reach_prob ! j) [0..<length ?oh]))
                 (fsum (map (\<lambda>j. reach_prob ! j)
                    (filter (\<lambda>j. has_card (?oh ! j) (card1 ?h)) [0..<length ?oh]))))
                 (fsum (map (\<lambda>j. reach_prob ! j)
                    (filter (\<lambda>j. has_card (?oh ! j) (card2 ?h)) [0..<length ?oh]))))
                 (if indPlayer2Player s player (1 - player) i = - 1 then Num 0
                  else reach_prob ! nat (indPlayer2Player s player (1 - player) i))"
  from terminalUtility_payoff[OF pl ok i hi nb, of node_payoffs reach_prob]
  obtain res where res: "terminalUtility s player node_payoffs reach_prob current_board = Inr res"
    and len: "length (payoffs res) = length (ranges s ! nat player)"
    and p: "payoffs res ! i = fmul (node_payoffs ! nat player) ?E"
    by blast
  have T: "indPlayer2Player s player (1 - player) i = hand_index ?h ?oh 0"
    by (simp add: indPlayer2Player_def)
  have h: "card1 ?h \<noteq> card2 ?h" using hi by (simp add: hand_ok_def)
  have u: "payoffs res ! i =
                 fmul (node_payoffs ! nat player)
                   (Num (r * (real (length ?oh) -
                    real (card {j. j < length ?oh \<and>
                                   (has_card (?oh ! j) (card1 ?h) \<or> has_card (?oh ! j) (card2 ?h))}))))"
    if uni: "\<forall>j<length ?oh. reach_prob ! j = Num r"
      and uniq: "\<forall>j<length ?oh. \<forall>k<length ?oh. j \<noteq> k \<longrightarrow> \<not> same_hand (?oh ! j) (?oh ! k)"
      and rep: "\<forall>j\<le>length ?oh. fl32 (real j * r) = Num (real j * r)"
    unfolding p T uniform_blocker_count[OF uni uniq h rep] ..
  show ?thesis
    using res len p u by blast
qed

theorem terminalUtility_blocker_formula_witness:
  "length (ranges \<lparr>ranges = [[\<lparr>card1 = 0, card2 = 1, weight = 1\<rparr>, \<lparr>card1 = 2, card2 = 3, weight = 1\<rparr>],
                               [\<lparr>card1 = 0, card2 = 1, weight = 1\<rparr>, \<lparr>card1 = 0, card2 = 2, weight = 1\<rparr>,
                                \<lparr>card1 = 4, card2 = 5, weight = 1\<rparr>]],
          initial_board_long = boardInts2long [8, 9, 10], deck = [],
          color_iso_offset = color_iso_offset_init,
          iteration_number = 1, print_interval = 1, warmup = 0, accuracy = 0,
          logfile = [], monteCarolAlg = NONE, distributing_task = False,
          enable_equity = False\<rparr>) = 2 \<and>
   \<not> boardsHasIntercept (boardInts2long [8, 9, 10]) (toBoardLong \<lparr>card1 = 0, card2 = 1, weight = 1\<rparr>) \<and>
   fl32 (real 0 * 1) = Num (real 0 * 1) \<and> fl32 (real 1 * 1) = Num (real 1 * 1) \<and>
   fl32 (real 2 * 1) = Num (real 2 * 1) \<and> fl32 (real 3 * 1) = Num (real 3 * 1) \<and>
   payoffs (projr (terminalUtility
      \<lparr>ranges = [[\<lparr>card1 = 0, card2 = 1, weight = 1\<rparr>, \<lparr>card1 = 2, card2 = 3, weight = 1\<rparr>],
                  [\<lparr>card1 = 0, card2 = 1, weight = 1\<rparr>, \<lparr>card1 = 0, card2 = 2, weight = 1\<rparr>,
                   \<lparr>card1 = 4, card2 = 5, weight = 1\<rparr>]],
          initial_board_long = boardInts2long [8, 9, 10], deck = [],
          color_iso_offset = color_iso_offset_init,
          iteration_number = 1, print_interval = 1, warmup = 0, accuracy = 0,
          logfile = [], monteCarolAlg = NONE, distributing_task = False,
          enable_equity = False\<rparr> 0 [Num 3, Num (- 3)] [Num 1, Num 1, Num 1]
          (boardInts2long [8, 9, 10]))) ! 0 = Num 3"
proof -
  let ?h = "\<lparr>card1 = 0, card2 = 1, weight = 1::real\<rparr>"
  let ?oh = "[\<lparr>card1 = 0, card2 = 1, weight = 1::real\<rparr>, \<lparr>card1 = 0, card2 = 2, weight = 1\<rparr>,
              \<lparr>card1 = 4, card2 = 5, weight = 1\<rparr>]"
  let ?s = "\<lparr>ranges = [[?h, \<lparr>card1 = 2, card2 = 3, weight = 1\<rparr>], ?oh],
          initial_board_long = boardInts2long [8, 9, 10], deck = [],
          color_iso_offset = color_iso_offset_init,
          iteration_number = 1, print_interval = 1, warmup = 0, accuracy = 0,
          logfile = [], monteCarolAlg = NONE, distributing_task = False,
          enable_equity = False\<rparr>"
  let ?b = "boardInts2long [8, 9, 10]"
  let ?reach = "[Num 1, Num 1, Num 1]"
  have r0: "ranges ?s ! nat 0 = [?h, \<lparr>card1 = 2, card2 = 3, weight = 1\<rparr>]"
    and r1: "ranges ?s ! nat (1 - 0) = ?oh" by simp_all
  have h1: "(0::int) = 0 \<or> (0::int) = 1" by simp
  have h2: "length (ranges ?s) = 2" by simp
  have h3: "length ?reach = length (ranges ?s ! nat (1 - 0))" by simp
  have h4: "\<forall>g \<in> set (ranges ?s ! nat (1 - 0)). hand_ok g" by (simp add: hand_ok_def)
  have h5: "0 < length (ranges ?s ! nat 0)" by simp
  have h6: "hand_ok (ranges ?s ! nat 0 ! 0)" by (simp add: hand_ok_def)
  have nb: "\<not> boardsHasIntercept ?b (toBoardLong ?h)"
    by (simp add: boardsHasIntercept_def toBoardLong_def boardInts2long_def boardInt2long_def)
  have h7: "\<not> boardsHasIntercept ?b (toBoardLong (ranges ?s ! nat 0 ! 0))"
    using nb by simp
  have uni: "\<forall>j<length (ranges ?s ! nat (1 - 0)). ?reach ! j = Num 1"
    by (auto simp: less_Suc_eq numeral_3_eq_3)
  have uniq: "\<forall>j<length (ranges ?s ! nat (1 - 0)). \<forall>k<length (ranges ?s ! nat (1 - 0)).
               j \<noteq> k \<longrightarrow> \<not> same_hand (ranges ?s ! nat (1 - 0) ! j) (ranges ?s ! nat (1 - 0) ! k)"
    by (auto simp: less_Suc_eq numeral_3_eq_3 same_hand_def)
  have f0: "fl32 (real 0 * 1) = Num (real 0 * 1)" and f1: "fl32 (real 1 * 1) = Num (real 1 * 1)"
    and f2: "fl32 (real 2 * 1) = Num (real 2 * 1)" and f3: "fl32 (real 3 * 1) = Num (real 3 * 1)"
    by (simp_all add: float_eval)
  have rep: "\<forall>j\<le>length (ranges ?s ! nat (1 - 0)). fl32 (real j * 1) = Num (real j * 1)"
  proof (intro allI impI)
    fix j assume "j \<le> length (ranges ?s ! nat (1 - 0))"
    then have "j = 0 \<or> j = 1 \<or> j = 2 \<or> j = 3" by (simp add: le_Suc_eq numeral_3_eq_3) arith
    then show "fl32 (real j * 1) = Num (real j * 1)" using f0 f1 f2 f3 by auto
  qed
  have cnt: "{j. j < length (ranges ?s ! nat (1 - 0)) \<and>
                 (has_card (ranges ?s ! nat (1 - 0) ! j) (card1 (ranges ?s ! nat 0 ! 0)) \<or>
                  has_card (ranges ?s ! nat (1 - 0) ! j) (card2 (ranges ?s ! nat 0 ! 0)))} = {0, 1}"
    by (auto simp: less_Suc_eq numeral_3_eq_3 has_card_def)
  from terminalUtility_blocker_formula[OF h1 h2 h3 h4 h5 h6 h7, of "[Num 3, Num (- 3)]" 1]
  obtain res where res: "terminalUtility ?s 0 [Num 3, Num (- 3)] ?reach ?b = Inr res"
    and u: "payoffs res ! 0 =
                 fmul ([Num 3, Num (- 3)] ! nat 0)
                   (Num (1 * (real (length (ranges ?s ! nat (1 - 0))) -
                    real (card {j. j < length (ranges ?s ! nat (1 - 0)) \<and>
                                   (has_card (ranges ?s ! nat (1 - 0) ! j) (card1 (ranges ?s ! nat 0 ! 0)) \<or>
                                    has_card (ranges ?s ! nat (1 - 0) ! j) (card2 (ranges ?s ! nat 0 ! 0)))}))))"
    using uni uniq rep by blast
  have a: "payoffs res ! 0 = Num 3" unfolding u cnt by (simp add: float_eval)
  have b: "payoffs (projr (terminalUtility ?s 0 [Num 3, Num (- 3)] ?reach ?b)) ! 0 = Num 3"
    unfolding res sum.sel by (rule a)
  show ?thesis by (intro conjI h2 nb f0 f1 f2 f3 b)
qed

text \<open>
  C3 as stated fails: the sums are accumulated in single precision. With \<open>P = 1\<close>, ten
  opponent hands none of which shares a card with \<open>h\<close>, and the uniform reach
  \<open>0.1f = 13421773 / 134217728\<close>, the code returns \<open>8388609 / 8388608 = 1 + 2^-23\<close>,
  which is neither \<open>P * r * 10 = 67108865 / 67108864\<close> nor the single-precision product
  \<open>(P * r) * 10 = 1\<close>. With the reach \<open>[1, 2^-30]\<close> and the first opponent hand holding
  a card of \<open>h\<close>, the code returns 0, where the sums on the reals leave \<open>2^-30\<close>.
\<close>

theorem terminalUtility_uniform_reach_counterexample:
  "fl32 (1 / 10) = Num (13421773 / 134217728) \<and>
   payoffs (projr (terminalUtility
      \<lparr>ranges = [[\<lparr>card1 = 0, card2 = 1, weight = 1\<rparr>],
                  [\<lparr>card1 = 2, card2 = 3, weight = 1\<rparr>, \<lparr>card1 = 4, card2 = 5, weight = 1\<rparr>,
                   \<lparr>card1 = 6, card2 = 7, weight = 1\<rparr>, \<lparr>card1 = 8, card2 = 9, weight = 1\<rparr>,
                   \<lparr>card1 = 10, card2 = 11, weight = 1\<rparr>, \<lparr>card1 = 12, card2 = 13, weight = 1\<rparr>,
                   \<lparr>card1 = 14, card2 = 15, weight = 1\<rparr>, \<lparr>card1 = 16, card2 = 17, weight = 1\<rparr>,
                   \<lparr>card1 = 18, card2 = 19, weight = 1\<rparr>, \<lparr>card1 = 20, card2 = 21, weight = 1\<rparr>]],
          initial_board_long = boardInts2long [40, 41, 42], deck = [],
          color_iso_offset = color_iso_offset_init,
          iteration_number = 1, print_interval = 1, warmup = 0, accuracy = 0,
          logfile = [], monteCarolAlg = NONE, distributing_task = False,
          enable_equity = False\<rparr> 0 [Num 1, Num (- 1)]
          [Num (13421773 / 134217728), Num (13421773 / 134217728), Num (13421773 / 134217728),
           Num (13421773 / 134217728), Num (13421773 / 134217728), Num (13421773 / 134217728),
           Num (13421773 / 134217728), Num (13421773 / 134217728), Num (13421773 / 134217728),
           Num (13421773 / 134217728)]
          (boardInts2long [40, 41, 42]))) ! 0 = Num (8388609 / 8388608) \<and>
   (8388609 / 8388608 :: real) \<noteq> 1 * (13421773 / 134217728) * (10 - 0) \<and>
   fmul (fmul (Num 1) (Num (13421773 / 134217728))) (Num (10 - 0)) = Num 1 \<and>
   fl32 (1 / 2 ^ 30) = Num (1 / 2 ^ 30) \<and>
   payoffs (projr (terminalUtility
      \<lparr>ranges = [[\<lparr>card1 = 0, card2 = 1, weight = 1\<rparr>],
                  [\<lparr>card1 = 0, card2 = 2, weight = 1\<rparr>, \<lparr>card1 = 4, card2 = 5, weight = 1\<rparr>]],
          initial_board_long = boardInts2long [40, 41, 42], deck = [],
          color_iso_offset = color_iso_offset_init,
          iteration_number = 1, print_interval = 1, warmup = 0, accuracy = 0,
          logfile = [], monteCarolAlg = NONE, distributing_task = False,
          enable_equity = False\<rparr> 0 [Num 1, Num (- 1)] [Num 1, Num (1 / 2 ^ 30)]
          (boardInts2long [40, 41, 42]))) ! 0 = Num 0 \<and>
   (1 :: real) * ((1 + 1 / 2 ^ 30) - 1 - 0 + 0) \<noteq> 0"
proof -
  let ?h = "\<lparr>card1 = 0, card2 = 1, weight = 1::real\<rparr>"
  let ?oh = "[\<lparr>card1 = 2, card2 = 3, weight = 1::real\<rparr>, \<lparr>card1 = 4, card2 = 5, weight = 1\<rparr>,
                   \<lparr>card1 = 6, card2 = 7, weight = 1\<rparr>, \<lparr>card1 = 8, card2 = 9, weight = 1\<rparr>,
                   \<lparr>card1 = 10, card2 = 11, weight = 1\<rparr>, \<lparr>card1 = 12, card2 = 13, weight = 1\<rparr>,
                   \<lparr>card1 = 14, card2 = 15, weight = 1\<rparr>, \<lparr>card1 = 16, card2 = 17, weight = 1\<rparr>,
                   \<lparr>card1 = 18, card2 = 19, weight = 1\<rparr>, \<lparr>card1 = 20, card2 = 21, weight = 1\<rparr>]"
  let ?s = "\<lparr>ranges = [[?h], ?oh],
          initial_board_long = boardInts2long [40, 41, 42], deck = [],
          color_iso_offset = color_iso_offset_init,
          iteration_number = 1, print_interval = 1, warmup = 0, accuracy = 0,
          logfile = [], monteCarolAlg = NONE, distributing_task = False,
          enable_equity = False\<rparr>"
  let ?b = "boardInts2long [40, 41, 42]"
  let ?r = "Num (13421773 / 134217728)"
  let ?reach = "[?r, ?r, ?r, ?r, ?r, ?r, ?r, ?r, ?r, ?r]"
  have r0: "ranges ?s ! nat 0 = [?h]" and r1: "ranges ?s ! nat (1 - 0) = ?oh" by simp_all
  have h1: "(0::int) = 0 \<or> (0::int) = 1" by simp
  have h4: "\<forall>g \<in> set (ranges ?s ! nat (1 - 0)). hand_ok g" by (simp add: hand_ok_def)
  have h5: "0 < length (ranges ?s ! nat 0)" by simp
  have h6: "hand_ok (ranges ?s ! nat 0 ! 0)" by (simp add: hand_ok_def)
  have h7: "\<not> boardsHasIntercept ?b (toBoardLong (ranges ?s ! nat 0 ! 0))"
    by (simp add: boardsHasIntercept_def toBoardLong_def boardInts2long_def boardInt2long_def)
  have up: "[0..<10] = [0, 1, 2, 3, 4, 5, 6, 7, 8, 9]" by code_simp
  have S: "fsum (map (\<lambda>j. ?reach ! j) [0..<length ?oh]) = Num (8388609 / 8388608)"
    by (simp add: up float_eval)
  have C1: "filter (\<lambda>j. has_card (?oh ! j) (card1 ?h)) [0..<length ?oh] = []"
    by (simp add: up has_card_def)
  have C2: "filter (\<lambda>j. has_card (?oh ! j) (card2 ?h)) [0..<length ?oh] = []"
    by (simp add: up has_card_def)
  have T: "indPlayer2Player ?s 0 (1 - 0) 0 = - 1"
    by (simp add: indPlayer2Player_def same_hand_def)
  from terminalUtility_payoff[OF h1 h4 h5 h6 h7, of "[Num 1, Num (- 1)]" ?reach]
  obtain res where res: "terminalUtility ?s 0 [Num 1, Num (- 1)] ?reach ?b = Inr res"
    and p: "payoffs res ! 0 =
            fmul ([Num 1, Num (- 1)] ! nat 0)
              (fadd (fsub (fsub
                 (fsum (map (\<lambda>j. ?reach ! j) [0..<length (ranges ?s ! nat (1 - 0))]))
                 (fsum (map (\<lambda>j. ?reach ! j)
                    (filter (\<lambda>j. has_card (ranges ?s ! nat (1 - 0) ! j)
                                   (card1 (ranges ?s ! nat 0 ! 0)))
                       [0..<length (ranges ?s ! nat (1 - 0))]))))
                 (fsum (map (\<lambda>j. ?reach ! j)
                    (filter (\<lambda>j. has_card (ranges ?s ! nat (1 - 0) ! j)
                                   (card2 (ranges ?s ! nat 0 ! 0)))
                       [0..<length (ranges ?s ! nat (1 - 0))]))))
                 (if indPlayer2Player ?s 0 (1 - 0) 0 = - 1 then Num 0
                  else ?reach ! nat (indPlayer2Player ?s 0 (1 - 0) 0)))"
    by blast
  have a: "payoffs res ! 0 = Num (8388609 / 8388608)"
    unfolding p T r0 r1 nth_Cons_0 S C1 C2 by (simp add: float_eval)
  have b: "payoffs (projr (terminalUtility ?s 0 [Num 1, Num (- 1)] ?reach ?b)) ! 0 =
           Num (8388609 / 8388608)"
    unfolding res sum.sel by (rule a)
  have c: "fl32 (1 / 10) = Num (13421773 / 134217728)" by (simp add: float_eval)
  have d: "fmul (fmul (Num 1) (Num (13421773 / 134217728))) (Num (10 - 0)) = Num 1"
    by (simp add: float_eval)
  let ?oh2 = "[\<lparr>card1 = 0, card2 = 2, weight = 1::real\<rparr>, \<lparr>card1 = 4, card2 = 5, weight = 1\<rparr>]"
  let ?s2 = "\<lparr>ranges = [[?h], ?oh2],
          initial_board_long = boardInts2long [40, 41, 42], deck = [],
          color_iso_offset = color_iso_offset_init,
          iteration_number = 1, print_interval = 1, warmup = 0, accuracy = 0,
          logfile = [], monteCarolAlg = NONE, distributing_task = False,
          enable_equity = False\<rparr>"
  let ?reach2 = "[Num 1, Num (1 / 2 ^ 30)]"
  have q0: "ranges ?s2 ! nat 0 = [?h]" and q1: "ranges ?s2 ! nat (1 - 0) = ?oh2" by simp_all
  have g4: "\<forall>g \<in> set (ranges ?s2 ! nat (1 - 0)). hand_ok g" by (simp add: hand_ok_def)
  have g5: "0 < length (ranges ?s2 ! nat 0)" by simp
  have g6: "hand_ok (ranges ?s2 ! nat 0 ! 0)" by (simp add: hand_ok_def)
  have g7: "\<not> boardsHasIntercept ?b (toBoardLong (ranges ?s2 ! nat 0 ! 0))"
    by (simp add: boardsHasIntercept_def toBoardLong_def boardInts2long_def boardInt2long_def)
  have up2: "[0..<2] = [0, 1]" by code_simp
  have S2: "fsum (map (\<lambda>j. ?reach2 ! j) [0..<length ?oh2]) = Num 1"
    by (simp add: up2 float_eval)
  have D1: "fsum (map (\<lambda>j. ?reach2 ! j)
              (filter (\<lambda>j. has_card (?oh2 ! j) (card1 ?h)) [0..<length ?oh2])) = Num 1"
    by (simp add: up2 has_card_def float_eval)
  have D2: "filter (\<lambda>j. has_card (?oh2 ! j) (card2 ?h)) [0..<length ?oh2] = []"
    by (simp add: up2 has_card_def)
  have T2: "indPlayer2Player ?s2 0 (1 - 0) 0 = - 1"
    by (simp add: indPlayer2Player_def same_hand_def)
  from terminalUtility_payoff[OF h1 g4 g5 g6 g7, of "[Num 1, Num (- 1)]" ?reach2]
  obtain res2 where res2: "terminalUtility ?s2 0 [Num 1, Num (- 1)] ?reach2 ?b = Inr res2"
    and p2: "payoffs res2 ! 0 =
            fmul ([Num 1, Num (- 1)] ! nat 0)
              (fadd (fsub (fsub
                 (fsum (map (\<lambda>j. ?reach2 ! j) [0..<length (ranges ?s2 ! nat (1 - 0))]))
                 (fsum (map (\<lambda>j. ?reach2 ! j)
                    (filter (\<lambda>j. has_card (ranges ?s2 ! nat (1 - 0) ! j)
                                   (card1 (ranges ?s2 ! nat 0 ! 0)))
                       [0..<length (ranges ?s2 ! nat (1 - 0))]))))
                 (fsum (map (\<lambda>j. ?reach2 ! j)
                    (filter (\<lambda>j. has_card (ranges ?s2 ! nat (1 - 0) ! j)
                                   (card2 (ranges ?s2 ! nat 0 ! 0)))
                       [0..<length (ranges ?s2 ! nat (1 - 0))]))))
                 (if indPlayer2Player ?s2 0 (1 - 0) 0 = - 1 then Num 0
                  else ?reach2 ! nat (indPlayer2Player ?s2 0 (1 - 0) 0)))"
    by blast
  have a2: "payoffs res2 ! 0 = Num 0"
    unfolding p2 T2 q0 q1 nth_Cons_0 S2 D1 D2 by (simp add: float_eval)
  have b2: "payoffs (projr (terminalUtility ?s2 0 [Num 1, Num (- 1)] ?reach2 ?b)) ! 0 = Num 0"
    unfolding res2 sum.sel by (rule a2)
  have c2: "fl32 (1 / 2 ^ 30) = Num (1 / 2 ^ 30)" by (simp add: float_eval)
  show ?thesis by (intro conjI b c d b2 c2) simp_all
qed

end
